theory Spec2Isabelle
  imports Main "HOL-Library.Sublist"
begin

section \<open>Strings and report labels\<close>

text \<open>
  A Python \<open>str\<close> is modelled as a \<open>string\<close> holding its UTF-8 bytes. Every delimiter
  the crawler and \<open>urllib.parse\<close> look for is ASCII, so splitting at the first such byte is
  splitting at the first such character. The symbols that open the report labels are
  outside ASCII and are written as their bytes.
\<close>

definition cross_mark :: string where
  "cross_mark = [CHR 0xE2, CHR 0x9D, CHR 0x8C]"

definition lock_sign :: string where
  "lock_sign = [CHR 0xF0, CHR 0x9F, CHR 0x94, CHR 0x92]"

definition no_entry_sign :: string where
  "no_entry_sign = [CHR 0xF0, CHR 0x9F, CHR 0x9A, CHR 0xAB]"

definition hourglass_sign :: string where
  "hourglass_sign = [CHR 0xE2, CHR 0x8F, CHR 0xB3]"

definition warning_sign :: string where
  "warning_sign = [CHR 0xE2, CHR 0x9A, CHR 0xA0, CHR 0xEF, CHR 0xB8, CHR 0x8F]"

definition check_mark :: string where
  "check_mark = [CHR 0xE2, CHR 0x9C, CHR 0x85]"

definition redirect_sign :: string where
  "redirect_sign = [CHR 0xE2, CHR 0x86, CHR 0xAA, CHR 0xEF, CHR 0xB8, CHR 0x8F]"

definition question_mark :: string where
  "question_mark = [CHR 0xE2, CHR 0x9D, CHR 0x93]"

definition stopwatch_sign :: string where
  "stopwatch_sign = [CHR 0xE2, CHR 0x8F, CHR 0xB1]"


subsection \<open>Status labels\<close>

text \<open>The two dictionaries of the configuration block, in the order of the source.\<close>

definition SPECIFIC_LABELS :: "(int \<times> string) list" where
  "SPECIFIC_LABELS =
    [(400, cross_mark @ '' 400 Bad Request''),
     (401, lock_sign @ '' 401 Unauthorized''),
     (403, no_entry_sign @ '' 403 Forbidden (bot-blocked?)''),
     (404, cross_mark @ '' 404 Not Found''),
     (405, cross_mark @ '' 405 Method Not Allowed''),
     (410, cross_mark @ '' 410 Gone''),
     (429, hourglass_sign @ '' 429 Rate Limited''),
     (500, warning_sign @ ''  500 Server Error''),
     (502, warning_sign @ ''  502 Bad Gateway''),
     (503, warning_sign @ ''  503 Service Unavailable'')]"

definition STATUS_LABELS :: "(int \<times> string) list" where
  "STATUS_LABELS =
    [(2, check_mark @ '' OK''),
     (3, redirect_sign @ ''  Redirect''),
     (4, cross_mark @ '' Client Error''),
     (5, warning_sign @ ''  Server Error'')]"

definition unknown_label :: string where
  "unknown_label = question_mark @ '' Unknown''"

definition timeout_label :: string where
  "timeout_label = stopwatch_sign @ ''  Timeout/Error''"

text \<open>
  \<open>status_label\<close>: the exact code first, then the class \<open>code // 100\<close> with the default
  of \<open>dict.get\<close>. Python's \<open>//\<close> and HOL's \<open>div\<close> on \<open>int\<close> both round down.
\<close>

definition status_label :: "int \<Rightarrow> string" where
  "status_label code =
    (case map_of SPECIFIC_LABELS code of
       Some l \<Rightarrow> l
     | None \<Rightarrow>
        (case map_of STATUS_LABELS (code div 100) of
           Some l \<Rightarrow> l
         | None \<Rightarrow> unknown_label))"

text \<open>
  The label of one result record, as \<open>crawl\<close> computes it:
  \<open>status_label(code) if code else "...Timeout/Error"\<close>.
\<close>

definition crawl_label :: "int \<Rightarrow> string" where
  "crawl_label code = (if code \<noteq> 0 then status_label code else timeout_label)"

definition specific_codes :: "int list" where
  "specific_codes = [400, 401, 403, 404, 405, 410, 429, 500, 502, 503]"


section \<open>String operations of Python\<close>

text \<open>
  \<open>before c s\<close> and \<open>after c s\<close> are \<open>s[:i]\<close> and \<open>s[i+1:]\<close> for \<open>i = s.find(c)\<close>, that
  is the two parts of \<open>s.split(c, 1)\<close> when \<open>c\<close> occurs in \<open>s\<close>. \<open>startswith_any s ps\<close>
  is \<open>s.startswith(ps)\<close> for a tuple \<open>ps\<close> of prefixes. \<open>contains s sub\<close> is
  \<open>sub in s\<close>, \<open>split_on c s\<close> is \<open>s.split(c)\<close> and \<open>join sep ps\<close> is \<open>sep.join(ps)\<close>.
  \<open>lower\<close> only maps the ASCII capitals: it is applied to scheme names, which consist of
  ASCII letters, digits and \<open>+-.\<close> only.
\<close>

definition before :: "char \<Rightarrow> string \<Rightarrow> string" where
  "before c s = takeWhile (\<lambda>x. x \<noteq> c) s"

definition after :: "char \<Rightarrow> string \<Rightarrow> string" where
  "after c s = drop 1 (dropWhile (\<lambda>x. x \<noteq> c) s)"

definition startswith :: "string \<Rightarrow> string \<Rightarrow> bool" where
  "startswith s p = (take (length p) s = p)"

definition startswith_any :: "string \<Rightarrow> string list \<Rightarrow> bool" where
  "startswith_any s ps = list_ex (startswith s) ps"

fun contains :: "string \<Rightarrow> string \<Rightarrow> bool" where
  "contains [] sub = (sub = [])"
| "contains (c # s) sub = (startswith (c # s) sub \<or> contains s sub)"

definition isascii :: "string \<Rightarrow> bool" where
  "isascii s = list_all (\<lambda>c. (of_char c :: nat) < 128) s"

definition ascii_uppercase :: string where
  "ascii_uppercase = ''ABCDEFGHIJKLMNOPQRSTUVWXYZ''"

definition ascii_lowercase :: string where
  "ascii_lowercase = ''abcdefghijklmnopqrstuvwxyz''"

definition lower_char :: "char \<Rightarrow> char" where
  "lower_char c = (case map_of (zip ascii_uppercase ascii_lowercase) c of Some l \<Rightarrow> l | None \<Rightarrow> c)"

definition lower :: "string \<Rightarrow> string" where
  "lower s = map lower_char s"

definition strip_chars :: "(char \<Rightarrow> bool) \<Rightarrow> string \<Rightarrow> string" where
  "strip_chars P s = rev (dropWhile P (rev (dropWhile P s)))"

fun split_on :: "char \<Rightarrow> string \<Rightarrow> string list" where
  "split_on c [] = [[]]"
| "split_on c (x # xs) =
     (if x = c then [] # split_on c xs
      else (case split_on c xs of [] \<Rightarrow> [[x]] | p # ps \<Rightarrow> (x # p) # ps))"

fun join :: "string \<Rightarrow> string list \<Rightarrow> string" where
  "join sep [] = []"
| "join sep [p] = p"
| "join sep (p # q # ps) = p @ sep @ join sep (q # ps)"

section \<open>The standard library: \<open>urllib.parse\<close>\<close>

text \<open>
  \<open>normalise\<close>, \<open>same_domain\<close> and \<open>get_links\<close> are thin wrappers around \<open>urlparse\<close>,
  \<open>geturl\<close> and \<open>urljoin\<close> of Python's standard library, so these are part of the
  program's meaning. The definitions below follow \<open>Lib/urllib/parse.py\<close> of CPython
  statement by statement, for \<open>str\<close> arguments and \<open>allow_fragments=True\<close>. Where the
  library raises \<open>ValueError\<close> the model returns \<open>None\<close>; \<open>ValueError\<close> is the only exception
  these functions raise on strings.

  The program does not fix the release of CPython that runs it, and the releases 3.11 and
  3.12 differ in three places that the program reaches. What the program takes from
  outside its source, these three places included, is collected in a record \<open>world\<close>:
  \<^item> \<open>legacy_urlunsplit\<close>: \<open>urlunsplit\<close> decides by the rule of the releases up to 3.11.9
    and 3.12.3 whether to write \<open>//\<close> and the network location, that is
    \<open>netloc or (scheme and scheme in uses_netloc and url[:2] != '//')\<close>; otherwise by the
    rule of the later releases,
    \<open>netloc or (scheme and scheme in uses_netloc) or url[:2] == '//'\<close>;
  \<^item> \<open>itms_services\<close>: the list \<open>uses_netloc\<close> ends with \<open>itms-services\<close>, as it does in
    some builds of 3.12;
  \<^item> \<open>check_bracketed_netloc\<close>: whether a network location that contains both \<open>[\<close> and
    \<open>]\<close> passes the check of the bracketed host. The releases apply
    \<open>_check_bracketed_host\<close> to the text between the brackets, or
    \<open>_check_bracketed_netloc\<close> to the whole location; both parse an IP literal with
    \<open>ipaddress\<close>;
  \<^item> \<open>checknetloc_nfkc\<close>: whether a non-ASCII network location passes the NFKC test of
    \<open>_checknetloc\<close> (it uses \<open>unicodedata\<close>);
  \<^item> \<open>find_all_a_href\<close>: the \<open>href\<close> values of the elements that
    \<open>BeautifulSoup(html, "html.parser").find_all("a", href=True)\<close> returns, in document order;
  \<^item> \<open>session_get\<close>: the outcome of \<open>session.get(url, timeout=timeout, allow_redirects=True)\<close>
    on the session with the retry adapter mounted; the first argument counts the requests
    made before, so that the outcome may change from one request to the next.

  The outcome of a request is a response or an exception. Of a response the model keeps the
  status code, the \<open>Content-Type\<close> header if present, the decoded body and \<open>resp.url\<close>, the
  URL that the body came from: the requested URL, or the target of the last redirect when
  the request was redirected. \<open>crawl\<close> never reads \<open>resp.url\<close>. The exceptions are the
  three classes that \<open>crawl\<close> handles, in the order of its \<open>except\<close> clauses, and
  \<open>OtherException\<close>, an exception of a class outside \<open>RequestException\<close>, for which
  \<open>crawl\<close> has no handler. The library \<open>requests\<close> lets such an exception through, for
  example, when a redirect names a \<open>Location\<close> that \<open>urlparse\<close> rejects: it calls
  \<open>urlparse\<close> on the header outside any \<open>try\<close>.
\<close>

datatype fetch_outcome =
    Response int "string option" string string
  | Timeout
  | ConnectionError
  | RequestException
  | OtherException

record world =
  legacy_urlunsplit :: bool
  itms_services :: bool
  check_bracketed_netloc :: "string \<Rightarrow> bool"
  checknetloc_nfkc :: "string \<Rightarrow> bool"
  find_all_a_href :: "string \<Rightarrow> string list"
  session_get :: "nat \<Rightarrow> string \<Rightarrow> fetch_outcome"

definition uses_relative :: "string list" where
  "uses_relative = ['''', ''ftp'', ''http'', ''gopher'', ''nntp'', ''imap'',
     ''wais'', ''file'', ''https'', ''shttp'', ''mms'',
     ''prospero'', ''rtsp'', ''rtsps'', ''rtspu'', ''sftp'',
     ''svn'', ''svn+ssh'', ''ws'', ''wss'']"

definition uses_netloc :: "world \<Rightarrow> string list" where
  "uses_netloc w = ['''', ''ftp'', ''http'', ''gopher'', ''nntp'', ''telnet'',
     ''imap'', ''wais'', ''file'', ''mms'', ''https'', ''shttp'',
     ''snews'', ''prospero'', ''rtsp'', ''rtsps'', ''rtspu'', ''rsync'',
     ''svn'', ''svn+ssh'', ''sftp'', ''nfs'', ''git'', ''git+ssh'',
     ''ws'', ''wss''] @ (if itms_services w then [''itms-services''] else [])"

definition uses_params :: "string list" where
  "uses_params = ['''', ''ftp'', ''hdl'', ''prospero'', ''http'', ''imap'',
     ''https'', ''shttp'', ''rtsp'', ''rtsps'', ''rtspu'', ''sip'',
     ''sips'', ''mms'', ''sftp'', ''tel'']"

definition scheme_chars :: string where
  "scheme_chars = ''abcdefghijklmnopqrstuvwxyzABCDEFGHIJKLMNOPQRSTUVWXYZ0123456789+-.''"

definition C0_CONTROL_OR_SPACE :: "char \<Rightarrow> bool" where
  "C0_CONTROL_OR_SPACE c = ((of_char c :: nat) \<le> 32)"

definition UNSAFE_URL_BYTES_TO_REMOVE :: string where
  "UNSAFE_URL_BYTES_TO_REMOVE = [CHR 0x09, CHR 0x0D, CHR 0x0A]"

definition remove_unsafe :: "string \<Rightarrow> string" where
  "remove_unsafe s = filter (\<lambda>c. c \<notin> set UNSAFE_URL_BYTES_TO_REMOVE) s"

text \<open>\<open>_splitnetloc(url, start)\<close>: the network location ends at the first of \<open>/?#\<close>.\<close>

definition netloc_delim :: "char \<Rightarrow> bool" where
  "netloc_delim c = (c \<in> set ''/?#'')"

definition splitnetloc :: "string \<Rightarrow> nat \<Rightarrow> string \<times> string" where
  "splitnetloc url start =
     (takeWhile (\<lambda>c. \<not> netloc_delim c) (drop start url),
      dropWhile (\<lambda>c. \<not> netloc_delim c) (drop start url))"

text \<open>\<open>_checknetloc\<close> returns at once for an empty or ASCII network location.\<close>

definition checknetloc :: "world \<Rightarrow> string \<Rightarrow> bool" where
  "checknetloc w netloc = (netloc = [] \<or> isascii netloc \<or> checknetloc_nfkc w netloc)"

text \<open>
  The scheme test of \<open>urlsplit\<close>: \<open>i = url.find(':')\<close>, \<open>i > 0\<close>, the first character an ASCII
  letter and every character of \<open>url[:i]\<close> in \<open>scheme_chars\<close>.
\<close>

definition has_scheme :: "string \<Rightarrow> bool" where
  "has_scheme url =
     (CHR '':'' \<in> set url \<and> before CHR '':'' url \<noteq> [] \<and>
      hd url \<in> set (ascii_lowercase @ ascii_uppercase) \<and>
      list_all (\<lambda>c. c \<in> set scheme_chars) (before CHR '':'' url))"

text \<open>
  \<open>urlsplit(url, scheme)\<close>. The result is the 5-tuple (scheme, netloc, path, query,
  fragment). The three \<open>None\<close> branches are the three places that raise \<open>ValueError\<close>;
  the second is the check of the bracketed host.
\<close>

definition urlsplit ::
  "world \<Rightarrow> string \<Rightarrow> string \<Rightarrow> (string \<times> string \<times> string \<times> string \<times> string) option" where
  "urlsplit w url0 scheme0 =
     (let url1 = remove_unsafe (dropWhile C0_CONTROL_OR_SPACE url0);
          scheme1 = remove_unsafe (strip_chars C0_CONTROL_OR_SPACE scheme0);
          (scheme2, url2) =
             (if has_scheme url1
              then (lower (before CHR '':'' url1), after CHR '':'' url1)
              else (scheme1, url1));
          (netloc, url3) =
             (if take 2 url2 = ''//'' then splitnetloc url2 2 else ('''', url2));
          (url4, fragment) =
             (if CHR ''#'' \<in> set url3
              then (before CHR ''#'' url3, after CHR ''#'' url3) else (url3, ''''));
          (url5, query) =
             (if CHR ''?'' \<in> set url4
              then (before CHR ''?'' url4, after CHR ''?'' url4) else (url4, ''''))
      in if (CHR ''['' \<in> set netloc \<and> CHR '']'' \<notin> set netloc) \<or>
            (CHR '']'' \<in> set netloc \<and> CHR ''['' \<notin> set netloc) then None
         else if CHR ''['' \<in> set netloc \<and> CHR '']'' \<in> set netloc \<and>
            \<not> check_bracketed_netloc w netloc then None
         else if \<not> checknetloc w netloc then None
         else Some (scheme2, netloc, url5, query, fragment))"

record ParseResult =
  scheme :: string
  netloc :: string
  path :: string
  params :: string
  query :: string
  fragment :: string

text \<open>
  \<open>_splitparams(url)\<close>. \<open>rfind_split c s\<close> cuts \<open>s\<close> at the last \<open>c\<close>:
  \<open>(s[:k], s[k:])\<close> for \<open>k = s.rfind(c)\<close>. The last branch is \<open>i = -1\<close>, which \<open>urlparse\<close>
  never reaches.
\<close>

definition rfind_split :: "char \<Rightarrow> string \<Rightarrow> string \<times> string" where
  "rfind_split c s = (rev (drop 1 (dropWhile (\<lambda>x. x \<noteq> c) (rev s))),
                      c # rev (takeWhile (\<lambda>x. x \<noteq> c) (rev s)))"

definition splitparams :: "string \<Rightarrow> string \<times> string" where
  "splitparams url =
     (if CHR ''/'' \<in> set url then
        (let (hd_part, last_part) = rfind_split CHR ''/'' url in
         if CHR '';'' \<notin> set last_part then (url, '''')
         else (hd_part @ before CHR '';'' last_part, after CHR '';'' last_part))
      else if CHR '';'' \<in> set url then (before CHR '';'' url, after CHR '';'' url)
      else (butlast url, url))"

definition urlparse :: "world \<Rightarrow> string \<Rightarrow> string \<Rightarrow> ParseResult option" where
  "urlparse w url scheme0 =
     (case urlsplit w url scheme0 of
        None \<Rightarrow> None
      | Some (sch, nl, url1, q, f) \<Rightarrow>
          (let (url2, pa) =
                 (if sch \<in> set uses_params \<and> CHR '';'' \<in> set url1
                  then splitparams url1 else (url1, ''''))
           in Some \<lparr>scheme = sch, netloc = nl, path = url2, params = pa,
                     query = q, fragment = f\<rparr>))"

text \<open>
  \<open>urlunsplit(components)\<close>, with the condition of its first \<open>if\<close> in the two forms that
  the releases have.
\<close>

definition urlunsplit ::
  "world \<Rightarrow> string \<Rightarrow> string \<Rightarrow> string \<Rightarrow> string \<Rightarrow> string \<Rightarrow> string" where
  "urlunsplit w sch nl url0 q f =
     (let url1 =
            (if (if legacy_urlunsplit w
                 then nl \<noteq> [] \<or> (sch \<noteq> [] \<and> sch \<in> set (uses_netloc w) \<and> take 2 url0 \<noteq> ''//'')
                 else nl \<noteq> [] \<or> (sch \<noteq> [] \<and> sch \<in> set (uses_netloc w)) \<or> take 2 url0 = ''//'')
             then ''//'' @ nl @ (if url0 \<noteq> [] \<and> take 1 url0 \<noteq> ''/'' then ''/'' @ url0 else url0)
             else url0);
          url2 = (if sch \<noteq> [] then sch @ '':'' @ url1 else url1);
          url3 = (if q \<noteq> [] then url2 @ ''?'' @ q else url2)
      in if f \<noteq> [] then url3 @ ''#'' @ f else url3)"

definition urlunparse :: "world \<Rightarrow> ParseResult \<Rightarrow> string" where
  "urlunparse w r =
     urlunsplit w (scheme r) (netloc r)
       (if params r \<noteq> [] then path r @ '';'' @ params r else path r)
       (query r) (fragment r)"

text \<open>\<open>ParseResult.geturl()\<close> is \<open>urlunparse(self)\<close>.\<close>

definition geturl :: "world \<Rightarrow> ParseResult \<Rightarrow> string" where
  "geturl w r = urlunparse w r"

subsection \<open>The helpers of the crawler\<close>

text \<open>
  \<open>normalise(url)\<close> is \<open>urlparse(url)._replace(fragment="").geturl()\<close> and
  \<open>same_domain(url, base)\<close> compares the two \<open>netloc\<close> strings with \<open>==\<close>. Both raise when
  \<open>urlparse\<close> does.
\<close>

definition normalise :: "world \<Rightarrow> string \<Rightarrow> string option" where
  "normalise w url =
     (case urlparse w url '''' of
        None \<Rightarrow> None
      | Some parsed \<Rightarrow> Some (geturl w (parsed\<lparr>fragment := ''''\<rparr>)))"

definition same_domain :: "world \<Rightarrow> string \<Rightarrow> string \<Rightarrow> bool option" where
  "same_domain w url base =
     (case urlparse w url '''' of
        None \<Rightarrow> None
      | Some pu \<Rightarrow>
          (case urlparse w base '''' of
             None \<Rightarrow> None
           | Some pb \<Rightarrow> Some (netloc pu = netloc pb)))"


subsection \<open>\<open>urljoin\<close>\<close>

text \<open>
  \<open>remove_empty_middle\<close> is \<open>segments[1:-1] = filter(None, segments[1:-1])\<close>;
  \<open>resolve_step\<close> is the body of the loop over the segments; \<open>resolve_path\<close> is the part of
  \<open>urljoin\<close> from \<open>base_parts = bpath.split('/')\<close> to the joined path.
\<close>

definition remove_empty_middle :: "string list \<Rightarrow> string list" where
  "remove_empty_middle segments =
     (if length segments < 2 then segments
      else hd segments # filter (\<lambda>s. s \<noteq> []) (butlast (tl segments)) @ [last segments])"

definition resolve_step :: "string list \<Rightarrow> string \<Rightarrow> string list" where
  "resolve_step resolved_path seg =
     (if seg = ''..'' then butlast resolved_path
      else if seg = ''.'' then resolved_path
      else resolved_path @ [seg])"

definition resolve_path :: "string \<Rightarrow> string \<Rightarrow> string" where
  "resolve_path bpath pth =
     (let base_parts0 = split_on CHR ''/'' bpath;
          base_parts = (if last base_parts0 \<noteq> [] then butlast base_parts0 else base_parts0);
          segments =
            (if take 1 pth = ''/'' then split_on CHR ''/'' pth
             else remove_empty_middle (base_parts @ split_on CHR ''/'' pth));
          resolved0 = foldl resolve_step [] segments;
          resolved_path =
            (if last segments \<in> {''.'', ''..''} then resolved0 @ [[]] else resolved0);
          joined = join ''/'' resolved_path
      in if joined = [] then ''/'' else joined)"

definition urljoin :: "world \<Rightarrow> string \<Rightarrow> string \<Rightarrow> string option" where
  "urljoin w base url =
     (if base = [] then Some url
      else if url = [] then Some base
      else
        (case urlparse w base [] of
           None \<Rightarrow> None
         | Some b \<Rightarrow>
            (case urlparse w url (scheme b) of
               None \<Rightarrow> None
             | Some u \<Rightarrow>
                 if scheme u \<noteq> scheme b \<or> scheme u \<notin> set uses_relative then Some url
                 else if scheme u \<in> set (uses_netloc w) \<and> netloc u \<noteq> [] then Some (urlunparse w u)
                 else
                   (let nl = (if scheme u \<in> set (uses_netloc w) then netloc b else netloc u)
                    in if path u = [] \<and> params u = [] then
                         Some (urlunparse w (u\<lparr>netloc := nl, path := path b, params := params b,
                                 query := (if query u = [] then query b else query u)\<rparr>))
                       else
                         Some (urlunparse w (u\<lparr>netloc := nl,
                                 path := resolve_path (path b) (path u)\<rparr>))))))"


section \<open>The crawler\<close>

subsection \<open>Link extraction\<close>

text \<open>
  \<open>str.strip()\<close> removes the characters for which \<open>str.isspace\<close> holds from both ends.
  \<open>whitespace\<close> lists them in UTF-8; \<open>lstrip_any toks s\<close> removes leading occurrences of
  the tokens.
\<close>

definition whitespace :: "string list" where
  "whitespace =
    [[CHR 0x09], [CHR 0x0A], [CHR 0x0B], [CHR 0x0C], [CHR 0x0D],
     [CHR 0x1C], [CHR 0x1D], [CHR 0x1E], [CHR 0x1F], [CHR 0x20],
     [CHR 0xC2, CHR 0x85], [CHR 0xC2, CHR 0xA0], [CHR 0xE1, CHR 0x9A, CHR 0x80],
     [CHR 0xE2, CHR 0x80, CHR 0x80], [CHR 0xE2, CHR 0x80, CHR 0x81],
     [CHR 0xE2, CHR 0x80, CHR 0x82], [CHR 0xE2, CHR 0x80, CHR 0x83],
     [CHR 0xE2, CHR 0x80, CHR 0x84], [CHR 0xE2, CHR 0x80, CHR 0x85],
     [CHR 0xE2, CHR 0x80, CHR 0x86], [CHR 0xE2, CHR 0x80, CHR 0x87],
     [CHR 0xE2, CHR 0x80, CHR 0x88], [CHR 0xE2, CHR 0x80, CHR 0x89],
     [CHR 0xE2, CHR 0x80, CHR 0x8A], [CHR 0xE2, CHR 0x80, CHR 0xA8],
     [CHR 0xE2, CHR 0x80, CHR 0xA9], [CHR 0xE2, CHR 0x80, CHR 0xAF],
     [CHR 0xE2, CHR 0x81, CHR 0x9F], [CHR 0xE3, CHR 0x80, CHR 0x80]]"

function lstrip_any :: "string list \<Rightarrow> string \<Rightarrow> string" where
  "lstrip_any toks s =
     (case find (\<lambda>t. t \<noteq> [] \<and> startswith s t) toks of
        None \<Rightarrow> s
      | Some t \<Rightarrow> lstrip_any toks (drop (length t) s))"
  by pat_completeness auto
termination
proof (relation "measure (\<lambda>(toks, s). length s)")
  show "wf (measure (\<lambda>(toks, s). length s))" by simp
next
  fix toks :: "string list" and s t :: string
  assume "find (\<lambda>t. t \<noteq> [] \<and> startswith s t) toks = Some t"
  then have "t \<noteq> []" and "startswith s t"
    by (auto simp add: find_Some_iff)
  then have "s \<noteq> []" by (auto simp add: startswith_def)
  with \<open>t \<noteq> []\<close> show "((toks, drop (length t) s), (toks, s)) \<in> measure (\<lambda>(toks, s). length s)"
    by simp
qed

declare lstrip_any.simps [simp del]

definition strip :: "string \<Rightarrow> string" where
  "strip s = rev (lstrip_any (map rev whitespace) (rev (lstrip_any whitespace s)))"

text \<open>
  \<open>get_links\<close>: the loop over the anchors with the list \<open>links\<close> as accumulator. An
  exception of \<open>urljoin\<close> or \<open>normalise\<close> leaves the loop and the function.
\<close>

fun get_links_loop :: "world \<Rightarrow> string \<Rightarrow> string list \<Rightarrow> string list \<Rightarrow> string list option" where
  "get_links_loop w page_url [] links = Some links"
| "get_links_loop w page_url (h # hs) links =
     (let href = strip h in
      if startswith_any href [''mailto:'', ''tel:'', ''javascript:'']
      then get_links_loop w page_url hs links
      else
        (case urljoin w page_url href of
           None \<Rightarrow> None
         | Some joined \<Rightarrow>
            (case normalise w joined of
               None \<Rightarrow> None
             | Some full \<Rightarrow> get_links_loop w page_url hs (links @ [full]))))"

definition get_links :: "world \<Rightarrow> string \<Rightarrow> string \<Rightarrow> string list option" where
  "get_links w html page_url = get_links_loop w page_url (find_all_a_href w html) []"

subsection \<open>The crawl loop\<close>

text \<open>
  A result is the dictionary with the keys \<open>url\<close>, \<open>status_code\<close> and \<open>label\<close>. The state
  of the loop is the three local variables \<open>queue\<close>, \<open>visited\<close> and \<open>results\<close>.
\<close>

record crawl_result =
  url :: string
  status_code :: int
  label :: string

record crawl_state =
  queue :: "string list"
  visited :: "string set"
  results :: "crawl_result list"

text \<open>
  The \<open>try\<close> statement: the pair \<open>(code, html)\<close>. \<open>html\<close> is the body only if the
  \<open>Content-Type\<close> header (or \<open>""\<close> when absent) contains \<open>html\<close>; each of the three handlers
  sets \<open>code, html = 0, ""\<close>. An exception of another class passes the three \<open>except\<close>
  clauses and leaves \<open>crawl\<close>: that is \<open>None\<close>.
\<close>

definition fetch :: "world \<Rightarrow> nat \<Rightarrow> string \<Rightarrow> (int \<times> string) option" where
  "fetch w n u =
     (case session_get w n u of
        Response code content_type text final_url \<Rightarrow>
          Some (code, if contains (case content_type of None \<Rightarrow> [] | Some ct \<Rightarrow> ct) ''html''
                      then text else [])
      | Timeout \<Rightarrow> Some (0, [])
      | ConnectionError \<Rightarrow> Some (0, [])
      | RequestException \<Rightarrow> Some (0, [])
      | OtherException \<Rightarrow> None)"

text \<open>
  The \<open>for link in get_links(html, url)\<close> loop on the pair \<open>(queue, visited)\<close>.
  \<open>same_domain\<close> is only called when \<open>include_external\<close> is false.
\<close>

fun discover ::
  "world \<Rightarrow> string \<Rightarrow> bool \<Rightarrow> string list \<Rightarrow> string list \<times> string set \<Rightarrow>
   (string list \<times> string set) option" where
  "discover w start include_external [] (q, v) = Some (q, v)"
| "discover w start include_external (link # links) (q, v) =
     (if link \<in> v then discover w start include_external links (q, v)
      else if \<not> include_external then
        (case same_domain w link start of
           None \<Rightarrow> None
         | Some sd \<Rightarrow>
            if \<not> sd then discover w start include_external links (q, v)
            else discover w start include_external links (q @ [link], insert link v))
      else discover w start include_external links (q @ [link], insert link v))"

text \<open>
  One pass through the body of the \<open>while\<close> loop, entered with a non-empty queue. The
  prints and the sleep between requests are left out. \<open>None\<close> is an exception that leaves
  \<open>crawl\<close>: one that \<open>session.get\<close> raised and no handler caught, or the \<open>ValueError\<close> of
  \<open>same_domain\<close> or \<open>get_links\<close>.
\<close>

definition crawl_body :: "world \<Rightarrow> string \<Rightarrow> bool \<Rightarrow> crawl_state \<Rightarrow> crawl_state option" where
  "crawl_body w start include_external s =
     (let u = hd (queue s);
          q1 = tl (queue s)
      in case fetch w (length (results s)) u of
           None \<Rightarrow> None
         | Some (code, html) \<Rightarrow>
            (let rs = results s @ [\<lparr>url = u, status_code = code, label = crawl_label code\<rparr>]
             in if html \<noteq> [] then
                  (case same_domain w u start of
                     None \<Rightarrow> None
                   | Some sd \<Rightarrow>
                      if sd then
                        (case get_links w html u of
                           None \<Rightarrow> None
                         | Some links \<Rightarrow>
                            (case discover w start include_external links (q1, visited s) of
                               None \<Rightarrow> None
                             | Some (q2, v2) \<Rightarrow> Some \<lparr>queue = q2, visited = v2, results = rs\<rparr>))
                      else Some \<lparr>queue = q1, visited = visited s, results = rs\<rparr>)
                else Some \<lparr>queue = q1, visited = visited s, results = rs\<rparr>))"

lemma crawl_body_length:
  "crawl_body w start inc s = Some s' \<Longrightarrow> length (results s') = Suc (length (results s))"
  by (auto simp add: crawl_body_def Let_def split: prod.splits option.splits if_splits)

text \<open>
  \<open>while queue and len(results) < max_pages\<close>. Every pass adds one result, so the loop
  ends; the function returns the final state, of which \<open>crawl\<close> returns \<open>results\<close>.
\<close>

function crawl_loop ::
  "world \<Rightarrow> string \<Rightarrow> int \<Rightarrow> bool \<Rightarrow> crawl_state \<Rightarrow> crawl_state option" where
  "crawl_loop w start max_pages include_external s =
     (if queue s \<noteq> [] \<and> int (length (results s)) < max_pages then
        (case crawl_body w start include_external s of
           None \<Rightarrow> None
         | Some s' \<Rightarrow> crawl_loop w start max_pages include_external s')
      else Some s)"
  by pat_completeness auto
termination
  by (relation "measure (\<lambda>(w, start, max_pages, inc, s). nat (max_pages - int (length (results s))))")
    (auto dest: crawl_body_length)

declare crawl_loop.simps [simp del]

text \<open>
  The state before the loop: \<open>queue = deque([start_url])\<close>, \<open>visited = {start_url}\<close>,
  \<open>results = []\<close>, with \<open>start_url\<close> already normalised.
\<close>

definition initial_state :: "string \<Rightarrow> crawl_state" where
  "initial_state start = \<lparr>queue = [start], visited = {start}, results = []\<rparr>"

text \<open>
  \<open>crawl(start_url, max_pages, delay, timeout, include_external)\<close>. \<open>delay\<close> only feeds
  the sleep, and \<open>timeout\<close> is passed on to \<open>session.get\<close>, whose outcome is \<open>session_get\<close>.
\<close>

definition crawl :: "world \<Rightarrow> string \<Rightarrow> int \<Rightarrow> bool \<Rightarrow> crawl_result list option" where
  "crawl w start_url max_pages include_external =
     (case normalise w start_url of
        None \<Rightarrow> None
      | Some start \<Rightarrow>
          map_option results
            (crawl_loop w start max_pages include_external (initial_state start)))"

subsection \<open>Example sites\<close>

text \<open>
  Small worlds on which the definitions are run: \<open>table_world pages anchors\<close> answers a
  request for a listed URL with the listed outcome and any other request with a connection
  error, and finds in a listed document the listed \<open>href\<close> values. In \<open>bfs_site\<close> the seed
  links to B and C and B links to D. In \<open>mixed_site\<close> the seed links to a page that times
  out, to a page of another host, which has a link of its own, to a mail address and once
  more to the first page, with a fragment.
\<close>

definition table_world :: "(string \<times> fetch_outcome) list \<Rightarrow> (string \<times> string list) list \<Rightarrow> world" where
  "table_world pages anchors =
     \<lparr>legacy_urlunsplit = False,
      itms_services = False,
      check_bracketed_netloc = (\<lambda>_. False),
      checknetloc_nfkc = (\<lambda>_. False),
      find_all_a_href = (\<lambda>html. case map_of anchors html of None \<Rightarrow> [] | Some hs \<Rightarrow> hs),
      session_get = (\<lambda>n u. case map_of pages u of None \<Rightarrow> ConnectionError | Some r \<Rightarrow> r)\<rparr>"

definition html_page :: "string \<Rightarrow> string \<Rightarrow> fetch_outcome" where
  "html_page u body = Response 200 (Some ''text/html; charset=utf-8'') body u"

definition bfs_site :: world where
  "bfs_site = table_world
     [(''http://site.test/'', html_page ''http://site.test/''
        ''<a href=/b>B</a><a href=/c>C</a>''),
      (''http://site.test/b'', html_page ''http://site.test/b''
        ''<a href=/d>D</a>''),
      (''http://site.test/c'', html_page ''http://site.test/c''
        ''<p>C</p>''),
      (''http://site.test/d'', html_page ''http://site.test/d''
        ''<p>D</p>'')]
     [(''<a href=/b>B</a><a href=/c>C</a>'', [''/b'', ''/c'']),
      (''<a href=/d>D</a>'', [''/d''])]"

definition mixed_site :: world where
  "mixed_site = table_world
     [(''http://site.test/'', html_page ''http://site.test/''
        ''<a href=/a>A</a><a href=http://other.test/x>X</a><a href=mailto:me@site.test>M</a><a href=/a#top>T</a>''),
      (''http://site.test/a'', Timeout),
      (''http://other.test/x'', html_page ''http://other.test/x''
        ''<a href=http://other.test/y>Y</a>'')]
     [(''<a href=/a>A</a><a href=http://other.test/x>X</a><a href=mailto:me@site.test>M</a><a href=/a#top>T</a>'',
         [''/a'', ''http://other.test/x'', ''mailto:me@site.test'', ''/a#top'']),
      (''<a href=http://other.test/y>Y</a>'', [''http://other.test/y''])]"

text \<open>A page whose second anchor has a target that \<open>urljoin\<close> rejects.\<close>

definition broken_link_site :: world where
  "broken_link_site = table_world
     [(''http://site.test/'', html_page ''http://site.test/''
        ''<a href=/ok>1</a><a href=http://[>2</a>'')]
     [(''<a href=/ok>1</a><a href=http://[>2</a>'', [''/ok'', ''http://[''])]"

text \<open>
  A site whose second page answers with a redirect that \<open>requests\<close> cannot follow, so that
  \<open>session.get\<close> raises an exception outside \<open>RequestException\<close>; and the state of its
  crawl after the pass for the seed.
\<close>

definition raising_site :: world where
  "raising_site = table_world
     [(''http://site.test/'', html_page ''http://site.test/''
        ''<a href=/moved>M</a>''),
      (''http://site.test/moved'', OtherException)]
     [(''<a href=/moved>M</a>'', [''/moved''])]"

definition after_home :: crawl_state where
  "after_home =
     \<lparr>queue = [''http://site.test/moved''],
      visited = {''http://site.test/'', ''http://site.test/moved''},
      results = [\<lparr>url = ''http://site.test/'', status_code = 200, label = check_mark @ '' OK''\<rparr>]\<rparr>"

text \<open>
  A world of an interpreter with the older rule of \<open>urlunsplit\<close>, with one page.
\<close>

definition legacy_site :: world where
  "legacy_site = (table_world
     [(''http://x'', html_page ''http://x'' ''<p>X</p>'')] [])\<lparr>legacy_urlunsplit := True\<rparr>"

text \<open>
  A site whose seed is redirected to a page of another host: the body that the request
  for the seed returns was served by \<open>http://other.test/landing\<close> and links to \<open>/z\<close>.
\<close>

definition redirect_site :: world where
  "redirect_site = table_world
     [(''http://site.test/'',
         Response 200 (Some ''text/html'') ''<a href=/z>Z</a>'' ''http://other.test/landing''),
      (''http://site.test/z'', html_page ''http://site.test/z''
        ''<p>Z</p>'')]
     [(''<a href=/z>Z</a>'', [''/z''])]"

text \<open>The state of the crawl of \<open>mixed_site\<close> after the pass for the seed.\<close>

definition after_seed :: crawl_state where
  "after_seed =
     \<lparr>queue = [''http://site.test/a'', ''http://other.test/x''],
      visited = {''http://site.test/'', ''http://site.test/a'', ''http://other.test/x''},
      results = [\<lparr>url = ''http://site.test/'', status_code = 200, label = check_mark @ '' OK''\<rparr>]\<rparr>"

text \<open>The state of that crawl after the pass for the page that times out.\<close>

definition after_a :: crawl_state where
  "after_a =
     \<lparr>queue = [''http://other.test/x''],
      visited = {''http://site.test/'', ''http://site.test/a'', ''http://other.test/x''},
      results =
        [\<lparr>url = ''http://site.test/'', status_code = 200, label = check_mark @ '' OK''\<rparr>,
         \<lparr>url = ''http://site.test/a'', status_code = 0, label = timeout_label\<rparr>]\<rparr>"

subsection \<open>The invariant of the loop\<close>

text \<open>
  No URL occurs twice among the results and the queue, and \<open>visited\<close> holds exactly these
  URLs.
\<close>

definition crawl_inv :: "crawl_state \<Rightarrow> bool" where
  "crawl_inv s \<longleftrightarrow>
     distinct (map url (results s) @ queue s) \<and>
     visited s = set (map url (results s)) \<union> set (queue s)"

subsection \<open>The pages a crawl can reach\<close>

text \<open>
  The notions the page budget is stated with. \<open>fixed_responses\<close>: the outcome of a request
  does not depend on how many requests were made before. \<open>in_scope\<close>: the URL has the
  \<open>netloc\<close> of the seed, as \<open>same_domain\<close> decides it. \<open>page_links\<close>: the links of a page
  that the loop offers to the queue, that is the links of a page that returned an HTML body
  and is in scope, without the links of another host unless \<open>include_external\<close> is set.
  \<open>reachable\<close>: the seed and every URL that a reachable page links to in this sense.
  \<open>bfs_inv\<close>: the invariant of the loop that ties \<open>visited\<close> to the reachable URLs.
\<close>

definition fixed_responses :: "world \<Rightarrow> bool" where
  "fixed_responses w \<longleftrightarrow> (\<forall>n u. session_get w n u = session_get w 0 u)"

definition in_scope :: "world \<Rightarrow> string \<Rightarrow> string \<Rightarrow> bool" where
  "in_scope w start u \<longleftrightarrow> same_domain w u start = Some True"

definition page_links :: "world \<Rightarrow> string \<Rightarrow> bool \<Rightarrow> string \<Rightarrow> string list" where
  "page_links w start include_external u =
     (case fetch w 0 u of
        None \<Rightarrow> []
      | Some (code, html) \<Rightarrow>
         if html \<noteq> [] \<and> in_scope w start u then
           (case get_links w html u of
              None \<Rightarrow> []
            | Some links \<Rightarrow> filter (\<lambda>l. include_external \<or> in_scope w start l) links)
         else [])"

inductive_set reachable :: "world \<Rightarrow> string \<Rightarrow> bool \<Rightarrow> string set"
  for w :: world and start :: string and include_external :: bool where
  seed: "start \<in> reachable w start include_external"
| link: "u \<in> reachable w start include_external \<Longrightarrow>
         l \<in> set (page_links w start include_external u) \<Longrightarrow>
         l \<in> reachable w start include_external"

definition reachable_in_scope :: "world \<Rightarrow> string \<Rightarrow> bool \<Rightarrow> string set" where
  "reachable_in_scope w start include_external =
     {u \<in> reachable w start include_external. in_scope w start u}"

definition bfs_inv :: "world \<Rightarrow> string \<Rightarrow> bool \<Rightarrow> crawl_state \<Rightarrow> bool" where
  "bfs_inv w start inc s \<longleftrightarrow>
     crawl_inv s \<and> start \<in> visited s \<and> visited s \<subseteq> reachable w start inc \<and>
     (\<forall>u \<in> set (map url (results s)). set (page_links w start inc u) \<subseteq> visited s)"

subsection \<open>The stages of parsing, for the proofs about \<open>normalise\<close>\<close>

text \<open>
  \<open>cleanurl\<close> is the first step of \<open>urlsplit\<close> (leading control characters and spaces
  stripped, tab, carriage return and line feed removed); a string is \<open>is_clean\<close> when that
  step leaves it as it is. \<open>split_scheme\<close>, \<open>split_netloc\<close> and \<open>split_clean\<close> are the
  further steps of \<open>urlsplit\<close> on a cleaned URL, without the fragment, and \<open>netloc_ok\<close> says
  that none of its three checks raises. \<open>params_split\<close> is the step that \<open>urlparse\<close> adds,
  \<open>rejoin\<close> the first step of \<open>urlunparse\<close>, and \<open>build\<close> is \<open>geturl\<close> for the four
  components and an empty fragment. \<open>opts\<close> and \<open>optq\<close> are the scheme with its colon and
  the query with its question mark, when present. The remaining predicates describe the
  components that a split returns.
\<close>

definition cleanurl :: "string \<Rightarrow> string" where
  "cleanurl u = remove_unsafe (dropWhile C0_CONTROL_OR_SPACE u)"

definition is_safe :: "string \<Rightarrow> bool" where
  "is_safe s \<longleftrightarrow> (\<forall>c \<in> set s. c \<notin> set UNSAFE_URL_BYTES_TO_REMOVE)"

definition is_clean :: "string \<Rightarrow> bool" where
  "is_clean s \<longleftrightarrow> is_safe s \<and> (s = [] \<or> \<not> C0_CONTROL_OR_SPACE (hd s))"

definition netloc_ok :: "world \<Rightarrow> string \<Rightarrow> bool" where
  "netloc_ok w nl \<longleftrightarrow>
     \<not> ((CHR ''['' \<in> set nl \<and> CHR '']'' \<notin> set nl) \<or> (CHR '']'' \<in> set nl \<and> CHR ''['' \<notin> set nl)) \<and>
     \<not> (CHR ''['' \<in> set nl \<and> CHR '']'' \<in> set nl \<and>
        \<not> check_bracketed_netloc w nl) \<and>
     checknetloc w nl"

definition split_scheme :: "string \<Rightarrow> string \<times> string" where
  "split_scheme x =
     (if has_scheme x then (lower (before CHR '':'' x), after CHR '':'' x) else ([], x))"

definition split_netloc :: "string \<Rightarrow> string \<times> string" where
  "split_netloc x = (if take 2 x = ''//'' then splitnetloc x 2 else ([], x))"

definition split_clean :: "string \<Rightarrow> string \<times> string \<times> string \<times> string" where
  "split_clean x =
     (let (sch, u2) = split_scheme x;
          (nl, u3) = split_netloc u2;
          u4 = before CHR ''#'' u3
      in (sch, nl, before CHR ''?'' u4, after CHR ''?'' u4))"

definition params_split :: "string \<Rightarrow> string \<Rightarrow> string \<times> string" where
  "params_split sch p =
     (if sch \<in> set uses_params \<and> CHR '';'' \<in> set p then splitparams p else (p, []))"

definition rejoin :: "string \<times> string \<Rightarrow> string" where
  "rejoin ab = (if snd ab \<noteq> [] then fst ab @ '';'' @ snd ab else fst ab)"

definition build :: "world \<Rightarrow> string \<times> string \<times> string \<times> string \<Rightarrow> string" where
  "build w c = (case c of (sch, nl, p, q) \<Rightarrow> urlunsplit w sch nl (rejoin (params_split sch p)) q [])"

definition valid_scheme :: "string \<Rightarrow> bool" where
  "valid_scheme s \<longleftrightarrow>
     s \<noteq> [] \<and> hd s \<in> set (ascii_lowercase @ ascii_uppercase) \<and> set s \<subseteq> set scheme_chars"

definition norm_scheme :: "string \<Rightarrow> bool" where
  "norm_scheme s \<longleftrightarrow> s = [] \<or> (valid_scheme s \<and> lower s = s)"

definition delim_free :: "string \<Rightarrow> bool" where
  "delim_free nl \<longleftrightarrow> (\<forall>c \<in> set nl. \<not> netloc_delim c)"

definition delim_led :: "string \<Rightarrow> bool" where
  "delim_led r \<longleftrightarrow> r = [] \<or> netloc_delim (hd r)"

definition optq :: "string \<Rightarrow> string" where
  "optq q = (if q \<noteq> [] then CHR ''?'' # q else [])"

definition opts :: "string \<Rightarrow> string" where
  "opts sch = (if sch \<noteq> [] then sch @ '':'' else [])"


section \<open>Status classification\<close>

lemma map_of_SPECIFIC_LABELS_None:
  "code \<notin> set specific_codes \<Longrightarrow> map_of SPECIFIC_LABELS code = None"
  by (simp add: SPECIFIC_LABELS_def specific_codes_def)

lemma map_of_SPECIFIC_LABELS_Some:
  "code \<in> set specific_codes \<Longrightarrow> \<exists>l. map_of SPECIFIC_LABELS code = Some l"
  by (auto simp add: SPECIFIC_LABELS_def specific_codes_def)

lemma map_of_STATUS_LABELS_None:
  "k \<notin> {2, 3, 4, 5} \<Longrightarrow> map_of STATUS_LABELS k = None"
  by (simp add: STATUS_LABELS_def)

lemma map_of_STATUS_LABELS_Some:
  "k \<in> {2, 3, 4, 5} \<Longrightarrow> \<exists>l. map_of STATUS_LABELS k = Some l"
  by (auto simp add: STATUS_LABELS_def)

text \<open>
  C5, as the claim states it, fails: a code that is neither in the exact table nor in a
  class 2..5 (here 100) gets none of the four class labels but the default label.
\<close>

theorem C5_counterexample:
  "100 \<notin> set specific_codes \<and> (100::int) \<noteq> 0 \<and>
   crawl_label 100 \<notin> snd ` set STATUS_LABELS \<and>
   crawl_label 100 = unknown_label"
  by (simp add: crawl_label_def status_label_def SPECIFIC_LABELS_def STATUS_LABELS_def
      specific_codes_def unknown_label_def question_mark_def check_mark_def
      redirect_sign_def cross_mark_def warning_sign_def)

text \<open>
  C5 (amended): the classification has three tiers and a transport-failure label. A code
  of the exact table gets that table's label; any other non-zero code whose class
  \<open>code // 100\<close> is 2, 3, 4 or 5 gets the class label; any other non-zero code gets the
  default "Unknown" label; zero gets the transport-failure label. 404 gets the exact
  "404 Not Found" label, 201 the 2xx label, which is not a label of the exact table.
\<close>

theorem C5_status_classification:
  "(code \<in> set specific_codes \<longrightarrow>
      map_of SPECIFIC_LABELS code = Some (crawl_label code)) \<and>
   (code \<notin> set specific_codes \<and> code \<noteq> 0 \<and> code div 100 \<in> {2, 3, 4, 5} \<longrightarrow>
      map_of STATUS_LABELS (code div 100) = Some (crawl_label code)) \<and>
   (code \<notin> set specific_codes \<and> code \<noteq> 0 \<and> code div 100 \<notin> {2, 3, 4, 5} \<longrightarrow>
      crawl_label code = unknown_label) \<and>
   crawl_label 0 = timeout_label \<and>
   crawl_label 404 = cross_mark @ '' 404 Not Found'' \<and>
   crawl_label 201 = check_mark @ '' OK'' \<and>
   crawl_label 201 \<notin> snd ` set SPECIFIC_LABELS"
proof (intro conjI impI)
  assume "code \<in> set specific_codes"
  then have "code \<noteq> 0" by (auto simp add: specific_codes_def)
  moreover obtain l where "map_of SPECIFIC_LABELS code = Some l"
    using map_of_SPECIFIC_LABELS_Some [OF \<open>code \<in> set specific_codes\<close>] by blast
  ultimately show "map_of SPECIFIC_LABELS code = Some (crawl_label code)"
    by (simp add: crawl_label_def status_label_def)
next
  assume a: "code \<notin> set specific_codes \<and> code \<noteq> 0 \<and> code div 100 \<in> {2, 3, 4, 5}"
  then obtain l where "map_of STATUS_LABELS (code div 100) = Some l"
    using map_of_STATUS_LABELS_Some by blast
  with a show "map_of STATUS_LABELS (code div 100) = Some (crawl_label code)"
    by (simp add: crawl_label_def status_label_def map_of_SPECIFIC_LABELS_None)
next
  assume "code \<notin> set specific_codes \<and> code \<noteq> 0 \<and> code div 100 \<notin> {2, 3, 4, 5}"
  then show "crawl_label code = unknown_label"
    by (simp add: crawl_label_def status_label_def map_of_SPECIFIC_LABELS_None
        map_of_STATUS_LABELS_None)
next
  show "crawl_label 0 = timeout_label"
    by (simp add: crawl_label_def)
next
  show "crawl_label 404 = cross_mark @ '' 404 Not Found''"
    by (simp add: crawl_label_def status_label_def SPECIFIC_LABELS_def)
next
  show "crawl_label 201 = check_mark @ '' OK''"
    by (simp add: crawl_label_def status_label_def SPECIFIC_LABELS_def STATUS_LABELS_def)
next
  show "crawl_label 201 \<notin> snd ` set SPECIFIC_LABELS"
    by (simp add: crawl_label_def status_label_def SPECIFIC_LABELS_def STATUS_LABELS_def
        check_mark_def cross_mark_def lock_sign_def no_entry_sign_def hourglass_sign_def
        warning_sign_def)
qed

theorem C5_status_classification_witness:
  "(418::int) \<notin> set specific_codes \<and> (418::int) \<noteq> 0 \<and> (418::int) div 100 \<in> {2, 3, 4, 5} \<and>
   map_of STATUS_LABELS 4 = Some (crawl_label 418) \<and>
   (503::int) \<in> set specific_codes \<and>
   map_of SPECIFIC_LABELS 503 = Some (crawl_label 503) \<and>
   (600::int) div 100 \<notin> {2, 3, 4, 5} \<and> crawl_label 600 = unknown_label"
  using C5_status_classification [of 418] C5_status_classification [of 503]
    C5_status_classification [of 600]
  by (simp add: specific_codes_def)


section \<open>The crawl loop\<close>

subsection \<open>One pass and the invariant\<close>

lemma discover_new:
  "discover w start inc links (q, v) = Some (q', v') \<Longrightarrow>
   \<exists>new. q' = q @ new \<and> v' = v \<union> set new \<and> set new \<inter> v = {} \<and> distinct new \<and>
     set new \<subseteq> set links"
proof (induction links arbitrary: q v)
  case Nil
  then show ?case by simp
next
  case (Cons link links)
  show ?case
  proof (cases "link \<in> v")
    case True
    with Cons.prems have "discover w start inc links (q, v) = Some (q', v')" by simp
    from Cons.IH [OF this] show ?thesis by auto
  next
    case False
    show ?thesis
    proof (cases "discover w start inc links (q, v) = Some (q', v')")
      case True
      from Cons.IH [OF this] show ?thesis by auto
    next
      case skip: False
      with False Cons.prems
      have "discover w start inc links (q @ [link], insert link v) = Some (q', v')"
        by (auto split: if_splits option.splits)
      from Cons.IH [OF this] obtain new where
        new: "q' = (q @ [link]) @ new" "v' = insert link v \<union> set new"
          "set new \<inter> insert link v = {}" "distinct new" "set new \<subseteq> set links"
        by blast
      have "q' = q @ (link # new)" using new by simp
      moreover have "v' = v \<union> set (link # new)" using new by auto
      moreover have "set (link # new) \<inter> v = {}" using new False by auto
      moreover have "distinct (link # new)" using new by auto
      moreover have "set (link # new) \<subseteq> set (link # links)" using new by auto
      ultimately show ?thesis by blast
    qed
  qed
qed

lemma crawl_body_step:
  assumes "crawl_body w start inc s = Some s'"
  shows "\<exists>new code html.
           fetch w (length (results s)) (hd (queue s)) = Some (code, html) \<and>
           queue s' = tl (queue s) @ new \<and> visited s' = visited s \<union> set new \<and>
           set new \<inter> visited s = {} \<and> distinct new \<and>
           results s' = results s @
             [\<lparr>url = hd (queue s), status_code = code, label = crawl_label code\<rparr>]"
proof -
  from assms obtain code html where
    f: "fetch w (length (results s)) (hd (queue s)) = Some (code, html)"
    by (cases "fetch w (length (results s)) (hd (queue s))")
      (auto simp add: crawl_body_def Let_def)
  let ?rs = "results s @ [\<lparr>url = hd (queue s), status_code = code, label = crawl_label code\<rparr>]"
  consider (leaf) "s' = \<lparr>queue = tl (queue s), visited = visited s, results = ?rs\<rparr>"
    | (expand) links q2 v2 where
        "discover w start inc links (tl (queue s), visited s) = Some (q2, v2)"
        "s' = \<lparr>queue = q2, visited = v2, results = ?rs\<rparr>"
    using assms f
    by (auto simp add: crawl_body_def Let_def split: if_splits option.splits)
  then show ?thesis
  proof cases
    case leaf
    then show ?thesis using f by simp
  next
    case expand
    from discover_new [OF expand(1)] obtain new where
      "q2 = tl (queue s) @ new" "v2 = visited s \<union> set new"
      "set new \<inter> visited s = {}" "distinct new"
      by blast
    with expand(2) f show ?thesis by simp
  qed
qed

lemma crawl_body_inv:
  assumes "crawl_body w start inc s = Some s'" and "queue s \<noteq> []" and "crawl_inv s"
  shows "crawl_inv s'"
proof -
  from crawl_body_step [OF assms(1)] obtain new r where
    st: "queue s' = tl (queue s) @ new" "visited s' = visited s \<union> set new"
      "set new \<inter> visited s = {}" "distinct new"
      "results s' = results s @ [r]" "url r = hd (queue s)"
    by force
  from assms(2) obtain u q where q: "queue s = u # q" by (cases "queue s") auto
  from assms(3) have d: "distinct (map url (results s) @ u # q)"
    and v: "visited s = set (map url (results s)) \<union> set (u # q)"
    by (simp_all add: crawl_inv_def q)
  have "distinct (map url (results s') @ queue s')"
    using d st v by (auto simp add: q)
  moreover have "visited s' = set (map url (results s')) \<union> set (queue s')"
    using st v by (auto simp add: q)
  ultimately show ?thesis by (simp add: crawl_inv_def)
qed

lemma crawl_loop_inv:
  "crawl_loop w start max_pages inc s = Some t \<Longrightarrow> crawl_inv s \<Longrightarrow> crawl_inv t"
proof (induction w start max_pages inc s rule: crawl_loop.induct)
  case (1 w start max_pages inc s)
  show ?case
  proof (cases "queue s \<noteq> [] \<and> int (length (results s)) < max_pages")
    case True
    with "1.prems"(1) obtain s' where
      b: "crawl_body w start inc s = Some s'" and l: "crawl_loop w start max_pages inc s' = Some t"
      by (subst (asm) crawl_loop.simps) (auto split: option.splits)
    from crawl_body_inv [OF b _ "1.prems"(2)] True have "crawl_inv s'" by simp
    from "1.IH" [OF True b l this] show ?thesis .
  next
    case False
    with "1.prems" show ?thesis by (subst (asm) crawl_loop.simps) auto
  qed
qed

lemma crawl_loop_mono:
  "crawl_loop w start max_pages inc s = Some t \<Longrightarrow>
   visited s \<subseteq> visited t \<and>
   prefix (map url (results s) @ queue s) (map url (results t) @ queue t) \<and>
   prefix (results s) (results t)"
proof (induction w start max_pages inc s rule: crawl_loop.induct)
  case (1 w start max_pages inc s)
  show ?case
  proof (cases "queue s \<noteq> [] \<and> int (length (results s)) < max_pages")
    case True
    with "1.prems"(1) obtain s' where
      b: "crawl_body w start inc s = Some s'" and l: "crawl_loop w start max_pages inc s' = Some t"
      by (subst (asm) crawl_loop.simps) (auto split: option.splits)
    from crawl_body_step [OF b] obtain new r where
      st: "queue s' = tl (queue s) @ new" "visited s' = visited s \<union> set new"
        "results s' = results s @ [r]" "url r = hd (queue s)"
      by force
    from True obtain u q where q: "queue s = u # q" by (cases "queue s") auto
    have "map url (results s') @ queue s' = (map url (results s) @ queue s) @ new"
      using st q by simp
    then have p: "prefix (map url (results s) @ queue s) (map url (results s') @ queue s')"
      by (metis prefixI)
    have p2: "prefix (results s) (results s')" using st by simp
    from "1.IH" [OF True b l] have ih: "visited s' \<subseteq> visited t"
      "prefix (map url (results s') @ queue s') (map url (results t) @ queue t)"
      "prefix (results s') (results t)"
      by simp_all
    have "visited s \<subseteq> visited t" using ih(1) st(2) by blast
    moreover have "prefix (map url (results s) @ queue s) (map url (results t) @ queue t)"
      using p ih(2) by (rule prefix_order.trans)
    moreover have "prefix (results s) (results t)"
      using p2 ih(3) by (rule prefix_order.trans)
    ultimately show ?thesis by blast
  next
    case False
    with "1.prems" show ?thesis by (subst (asm) crawl_loop.simps) auto
  qed
qed


lemma crawl_inv_initial: "crawl_inv (initial_state start)"
  by (simp add: crawl_inv_def initial_state_def)

lemma crawl_unfold:
  "crawl w start_url max_pages inc =
     (case normalise w start_url of
        None \<Rightarrow> None
      | Some start \<Rightarrow> map_option results (crawl_loop w start max_pages inc (initial_state start)))"
  by (simp add: crawl_def)

subsection \<open>The example sites, run\<close>

lemma bfs_site_crawl:
  "crawl bfs_site ''http://site.test/#top'' 10 False =
     Some [\<lparr>url = ''http://site.test/'', status_code = 200, label = check_mark @ '' OK''\<rparr>,
           \<lparr>url = ''http://site.test/b'', status_code = 200, label = check_mark @ '' OK''\<rparr>,
           \<lparr>url = ''http://site.test/c'', status_code = 200, label = check_mark @ '' OK''\<rparr>,
           \<lparr>url = ''http://site.test/d'', status_code = 200, label = check_mark @ '' OK''\<rparr>]"
  by code_simp

lemma bfs_site_body:
  "crawl_body bfs_site ''http://site.test/'' False (initial_state ''http://site.test/'') =
     Some \<lparr>queue = [''http://site.test/b'', ''http://site.test/c''],
           visited = {''http://site.test/'', ''http://site.test/b'', ''http://site.test/c''},
           results = [\<lparr>url = ''http://site.test/'', status_code = 200, label = check_mark @ '' OK''\<rparr>]\<rparr>"
  by code_simp

lemma mixed_site_crawl:
  "crawl mixed_site ''http://site.test/'' 10 True =
     Some [\<lparr>url = ''http://site.test/'', status_code = 200, label = check_mark @ '' OK''\<rparr>,
           \<lparr>url = ''http://site.test/a'', status_code = 0, label = timeout_label\<rparr>,
           \<lparr>url = ''http://other.test/x'', status_code = 200, label = check_mark @ '' OK''\<rparr>]"
  by code_simp

subsection \<open>Deduplication\<close>

text \<open>
  C1: in one pass of the loop the URLs that enter \<open>visited\<close> are exactly the URLs appended
  to the queue, none of them was in \<open>visited\<close> before and none is appended twice; over the
  loop \<open>visited\<close> only grows; the seed is in \<open>visited\<close> from the start, and at the end
  \<open>visited\<close> holds exactly the URLs of the results and of the queue, none twice. Hence no
  URL occurs twice in the list that \<open>crawl\<close> returns.
\<close>

theorem C1_visited_on_enqueue:
  "(crawl_body w start inc s = Some s' \<longrightarrow>
      (\<exists>new. queue s' = tl (queue s) @ new \<and> visited s' = visited s \<union> set new \<and>
         set new \<inter> visited s = {} \<and> distinct new)) \<and>
   (crawl_loop w start max_pages inc s = Some t \<longrightarrow> visited s \<subseteq> visited t) \<and>
   (normalise w start_url = Some start \<and>
    crawl_loop w start max_pages inc (initial_state start) = Some t' \<longrightarrow>
      start \<in> visited t' \<and>
      visited t' = set (map url (results t')) \<union> set (queue t') \<and>
      distinct (map url (results t') @ queue t')) \<and>
   (crawl w start_url max_pages inc = Some rs \<longrightarrow> distinct (map url rs))"
proof (intro conjI impI)
  assume "crawl_body w start inc s = Some s'"
  from crawl_body_step [OF this]
  show "\<exists>new. queue s' = tl (queue s) @ new \<and> visited s' = visited s \<union> set new \<and>
         set new \<inter> visited s = {} \<and> distinct new"
    by blast
next
  assume "crawl_loop w start max_pages inc s = Some t"
  then show "visited s \<subseteq> visited t"
    by (simp add: crawl_loop_mono)
next
  assume a: "normalise w start_url = Some start \<and>
    crawl_loop w start max_pages inc (initial_state start) = Some t'"
  then have inv: "crawl_inv t'"
    using crawl_loop_inv crawl_inv_initial by blast
  from a have "visited (initial_state start) \<subseteq> visited t'"
    using crawl_loop_mono by blast
  then show "start \<in> visited t'" by (simp add: initial_state_def)
  from inv show "visited t' = set (map url (results t')) \<union> set (queue t')"
    by (simp add: crawl_inv_def)
  from inv show "distinct (map url (results t') @ queue t')"
    by (simp add: crawl_inv_def)
next
  assume "crawl w start_url max_pages inc = Some rs"
  then obtain start t where "crawl_loop w start max_pages inc (initial_state start) = Some t"
    and rs: "rs = results t"
    by (auto simp add: crawl_unfold split: option.splits)
  then have "crawl_inv t"
    using crawl_loop_inv crawl_inv_initial by blast
  then show "distinct (map url rs)"
    by (simp add: crawl_inv_def rs)
qed

theorem C1_visited_on_enqueue_witness:
  "distinct (map url
     [\<lparr>url = ''http://site.test/'', status_code = 200, label = check_mark @ '' OK''\<rparr>,
      \<lparr>url = ''http://site.test/b'', status_code = 200, label = check_mark @ '' OK''\<rparr>,
      \<lparr>url = ''http://site.test/c'', status_code = 200, label = check_mark @ '' OK''\<rparr>,
      \<lparr>url = ''http://site.test/d'', status_code = 200, label = check_mark @ '' OK''\<rparr>])"
  using C1_visited_on_enqueue [where w = bfs_site and start_url = "''http://site.test/#top''"
      and max_pages = 10 and inc = False] bfs_site_crawl
  by blast

subsection \<open>Breadth-first order\<close>

text \<open>
  C2: a pass of the loop takes the URL at the head of the queue, appends its record to the
  results and appends the new links at the back of the queue. So the sequence "URLs of the
  results, then the queue" is only ever extended at its end: URLs leave the queue, and
  enter the results, in the order in which they entered the queue. On the site where the
  seed links to B and C and B links to D, \<open>crawl\<close> with \<open>max_pages = 10\<close> returns the
  pages in the order seed, B, C, D.
\<close>

theorem C2_bfs_order:
  "(queue s \<noteq> [] \<and> crawl_body w start inc s = Some s' \<longrightarrow>
      map url (results s') = map url (results s) @ [hd (queue s)] \<and>
      (\<exists>new. queue s' = tl (queue s) @ new \<and>
         map url (results s') @ queue s' = (map url (results s) @ queue s) @ new)) \<and>
   (crawl_loop w start max_pages inc s = Some t \<longrightarrow>
      prefix (map url (results s) @ queue s) (map url (results t) @ queue t) \<and>
      prefix (results s) (results t)) \<and>
   map_option (map url) (crawl bfs_site ''http://site.test/'' 10 False) =
     Some [''http://site.test/'', ''http://site.test/b'', ''http://site.test/c'',
           ''http://site.test/d'']"
proof (intro conjI impI)
  assume a: "queue s \<noteq> [] \<and> crawl_body w start inc s = Some s'"
  then obtain new code where st: "queue s' = tl (queue s) @ new"
    "results s' = results s @
       [\<lparr>url = hd (queue s), status_code = code, label = crawl_label code\<rparr>]"
    using crawl_body_step by blast
  from st(2) show r: "map url (results s') = map url (results s) @ [hd (queue s)]"
    by simp
  from a have "queue s = hd (queue s) # tl (queue s)" by simp
  then have "map url (results s') @ queue s' = (map url (results s) @ queue s) @ new"
    using r st(1) by (metis append.assoc append_Cons append_Nil)
  with st(1) show "\<exists>new. queue s' = tl (queue s) @ new \<and>
      map url (results s') @ queue s' = (map url (results s) @ queue s) @ new"
    by blast
next
  assume "crawl_loop w start max_pages inc s = Some t"
  then show "prefix (map url (results s) @ queue s) (map url (results t) @ queue t)"
    and "prefix (results s) (results t)"
    by (simp_all add: crawl_loop_mono)
next
  show "map_option (map url) (crawl bfs_site ''http://site.test/'' 10 False) =
     Some [''http://site.test/'', ''http://site.test/b'', ''http://site.test/c'',
           ''http://site.test/d'']"
    by code_simp
qed

theorem C2_bfs_order_witness:
  "map url [\<lparr>url = ''http://site.test/'', status_code = 200, label = check_mark @ '' OK''\<rparr>] =
     map url (results (initial_state ''http://site.test/'')) @ [''http://site.test/''] \<and>
   prefix [''http://site.test/''] [''http://site.test/'', ''http://site.test/b'', ''http://site.test/c'']"
proof -
  have q: "queue (initial_state ''http://site.test/'') \<noteq> []"
    by (simp add: initial_state_def)
  have l: "crawl_loop bfs_site ''http://site.test/'' 1 False (initial_state ''http://site.test/'') =
     Some \<lparr>queue = [''http://site.test/b'', ''http://site.test/c''],
           visited = {''http://site.test/'', ''http://site.test/b'', ''http://site.test/c''},
           results = [\<lparr>url = ''http://site.test/'', status_code = 200, label = check_mark @ '' OK''\<rparr>]\<rparr>"
    by code_simp
  from C2_bfs_order [where w = bfs_site and start = "''http://site.test/''" and inc = False
      and s = "initial_state ''http://site.test/''" and max_pages = 1] q bfs_site_body l
  show ?thesis
    by (simp add: initial_state_def)
qed

subsection \<open>Transport failures\<close>

text \<open>
  C6, as the claim states it, fails for a fault that is not one of the three handled
  classes: \<open>crawl\<close> catches \<open>Timeout\<close>, \<open>ConnectionError\<close> and \<open>RequestException\<close> only. On
  \<open>raising_site\<close> the pass for the seed completes; the request for the second URL raises
  another exception, no record is appended for that URL, the exception leaves the loop and
  \<open>crawl\<close> returns nothing, the record of the seed included.
\<close>

theorem C6_counterexample:
  "crawl_body raising_site ''http://site.test/'' False (initial_state ''http://site.test/'') =
     Some after_home \<and>
   session_get raising_site (length (results after_home)) (hd (queue after_home)) =
     OtherException \<and>
   crawl_body raising_site ''http://site.test/'' False after_home = None \<and>
   crawl raising_site ''http://site.test/'' 10 False = None"
  by code_simp

text \<open>
  C6 (amended): when the request for the URL at the head of the queue raises \<open>Timeout\<close>,
  \<open>ConnectionError\<close> or another \<open>RequestException\<close>, the pass of the loop completes (no
  exception leaves it), appends the one record with status code 0 and the
  transport-failure label, leaves the rest of the queue and \<open>visited\<close> as they are, and the
  loop goes on from that state. When the request raises an exception of any other class,
  the pass does not complete: the exception leaves the loop and \<open>crawl\<close>. A pass that
  completes appends exactly one record, for the URL it took from the queue, whatever the
  outcome of the request was.
\<close>

theorem C6_transport_failure:
  "(queue s \<noteq> [] \<and>
    session_get w (length (results s)) (hd (queue s)) \<in>
      {Timeout, ConnectionError, RequestException} \<longrightarrow>
      crawl_body w start inc s =
        Some \<lparr>queue = tl (queue s), visited = visited s,
              results = results s @
                [\<lparr>url = hd (queue s), status_code = 0, label = timeout_label\<rparr>]\<rparr> \<and>
      (int (length (results s)) < max_pages \<longrightarrow>
         crawl_loop w start max_pages inc s =
           crawl_loop w start max_pages inc
             \<lparr>queue = tl (queue s), visited = visited s,
              results = results s @
                [\<lparr>url = hd (queue s), status_code = 0, label = timeout_label\<rparr>]\<rparr>)) \<and>
   (session_get w (length (results s)) (hd (queue s)) = OtherException \<longrightarrow>
      crawl_body w start inc s = None \<and>
      (queue s \<noteq> [] \<and> int (length (results s)) < max_pages \<longrightarrow>
         crawl_loop w start max_pages inc s = None)) \<and>
   (crawl_body w start inc s = Some s' \<longrightarrow>
      session_get w (length (results s)) (hd (queue s)) \<noteq> OtherException \<and>
      (\<exists>r. results s' = results s @ [r] \<and> url r = hd (queue s)))"
proof (intro conjI impI)
  assume f: "queue s \<noteq> [] \<and>
    session_get w (length (results s)) (hd (queue s)) \<in>
      {Timeout, ConnectionError, RequestException}"
  then have "fetch w (length (results s)) (hd (queue s)) = Some (0, [])"
    by (auto simp add: fetch_def)
  then show b: "crawl_body w start inc s =
        Some \<lparr>queue = tl (queue s), visited = visited s,
              results = results s @
                [\<lparr>url = hd (queue s), status_code = 0, label = timeout_label\<rparr>]\<rparr>"
    by (simp add: crawl_body_def crawl_label_def)
  assume "int (length (results s)) < max_pages"
  with f show "crawl_loop w start max_pages inc s =
           crawl_loop w start max_pages inc
             \<lparr>queue = tl (queue s), visited = visited s,
              results = results s @
                [\<lparr>url = hd (queue s), status_code = 0, label = timeout_label\<rparr>]\<rparr>"
    by (subst crawl_loop.simps) (simp add: b)
next
  assume o: "session_get w (length (results s)) (hd (queue s)) = OtherException"
  then have "fetch w (length (results s)) (hd (queue s)) = None"
    by (simp add: fetch_def)
  then show b: "crawl_body w start inc s = None"
    by (simp add: crawl_body_def)
  assume "queue s \<noteq> [] \<and> int (length (results s)) < max_pages"
  then show "crawl_loop w start max_pages inc s = None"
    by (subst crawl_loop.simps) (simp add: b)
next
  assume b: "crawl_body w start inc s = Some s'"
  show "session_get w (length (results s)) (hd (queue s)) \<noteq> OtherException"
  proof
    assume "session_get w (length (results s)) (hd (queue s)) = OtherException"
    then have "fetch w (length (results s)) (hd (queue s)) = None"
      by (simp add: fetch_def)
    with b show False by (simp add: crawl_body_def)
  qed
  from crawl_body_step [OF b] show "\<exists>r. results s' = results s @ [r] \<and> url r = hd (queue s)"
    by force
qed

theorem C6_transport_failure_witness:
  "session_get mixed_site (length (results after_seed)) (hd (queue after_seed)) = Timeout \<and>
   crawl_body mixed_site ''http://site.test/'' True after_seed =
     Some \<lparr>queue = [''http://other.test/x''],
           visited = {''http://site.test/'', ''http://site.test/a'', ''http://other.test/x''},
           results =
             [\<lparr>url = ''http://site.test/'', status_code = 200, label = check_mark @ '' OK''\<rparr>,
              \<lparr>url = ''http://site.test/a'', status_code = 0, label = timeout_label\<rparr>]\<rparr> \<and>
   session_get raising_site (length (results after_home)) (hd (queue after_home)) =
     OtherException \<and>
   crawl_loop raising_site ''http://site.test/'' 10 False after_home = None \<and>
   crawl_body raising_site ''http://site.test/'' False (initial_state ''http://site.test/'') =
     Some after_home \<and>
   (\<exists>r. results after_home = results (initial_state ''http://site.test/'') @ [r] \<and>
      url r = hd (queue (initial_state ''http://site.test/'')))"
proof -
  have q: "queue after_seed \<noteq> []"
    by (simp add: after_seed_def)
  have t: "session_get mixed_site (length (results after_seed)) (hd (queue after_seed)) = Timeout"
    by code_simp
  then have "session_get mixed_site (length (results after_seed)) (hd (queue after_seed)) \<in>
    {Timeout, ConnectionError, RequestException}"
    by simp
  with C6_transport_failure [where w = mixed_site and s = after_seed
      and start = "''http://site.test/''" and inc = True] t q
  have 1: "crawl_body mixed_site ''http://site.test/'' True after_seed =
     Some \<lparr>queue = [''http://other.test/x''],
           visited = {''http://site.test/'', ''http://site.test/a'', ''http://other.test/x''},
           results =
             [\<lparr>url = ''http://site.test/'', status_code = 200, label = check_mark @ '' OK''\<rparr>,
              \<lparr>url = ''http://site.test/a'', status_code = 0, label = timeout_label\<rparr>]\<rparr>"
    by (simp add: after_seed_def)
  have o: "session_get raising_site (length (results after_home)) (hd (queue after_home)) =
     OtherException"
    by code_simp
  have q': "queue after_home \<noteq> [] \<and> int (length (results after_home)) < 10"
    by (simp add: after_home_def)
  from C6_transport_failure [where w = raising_site and s = after_home
      and start = "''http://site.test/''" and inc = False and max_pages = 10] o q'
  have 2: "crawl_loop raising_site ''http://site.test/'' 10 False after_home = None"
    by blast
  have b: "crawl_body raising_site ''http://site.test/'' False (initial_state ''http://site.test/'') =
     Some after_home"
    by code_simp
  from C6_transport_failure [where w = raising_site and s = "initial_state ''http://site.test/''"
      and start = "''http://site.test/''" and inc = False and s' = after_home] b
  have 3: "\<exists>r. results after_home = results (initial_state ''http://site.test/'') @ [r] \<and>
      url r = hd (queue (initial_state ''http://site.test/''))"
    by blast
  from t 1 o 2 b 3 show ?thesis by blast
qed

section \<open>The page budget\<close>

lemma fetch_fixed:
  assumes "fixed_responses w"
  shows "fetch w n u = fetch w 0 u"
proof -
  from assms have "session_get w n u = session_get w 0 u"
    unfolding fixed_responses_def by blast
  then show ?thesis by (simp only: fetch_def)
qed

lemma discover_accepts:
  "discover w start inc links (q, v) = Some (q', v') \<Longrightarrow>
   v \<subseteq> v' \<and>
   (\<forall>l \<in> set links. inc \<or> in_scope w start l \<longrightarrow> l \<in> v') \<and>
   v' \<subseteq> v \<union> {l \<in> set links. inc \<or> in_scope w start l}"
proof (induction links arbitrary: q v)
  case Nil
  then show ?case by simp
next
  case (Cons link links)
  show ?case
  proof (cases "link \<in> v")
    case True
    with Cons.prems have "discover w start inc links (q, v) = Some (q', v')" by simp
    from Cons.IH [OF this] True show ?thesis by auto
  next
    case False
    show ?thesis
    proof (cases "inc \<or> in_scope w start link")
      case True
      with False Cons.prems
      have "discover w start inc links (q @ [link], insert link v) = Some (q', v')"
        by (auto simp add: in_scope_def split: if_splits option.splits)
      from Cons.IH [OF this] True show ?thesis by auto
    next
      case reject: False
      with False Cons.prems
      have "discover w start inc links (q, v) = Some (q', v')"
        by (auto simp add: in_scope_def split: if_splits option.splits)
      from Cons.IH [OF this] reject show ?thesis by auto
    qed
  qed
qed

lemma crawl_body_links:
  assumes "crawl_body w start inc s = Some s'" and "fixed_responses w"
  shows "set (page_links w start inc (hd (queue s))) \<subseteq> visited s' \<and>
         visited s' \<subseteq> visited s \<union> set (page_links w start inc (hd (queue s)))"
proof -
  let ?u = "hd (queue s)"
  from assms(1) obtain code html where f: "fetch w (length (results s)) ?u = Some (code, html)"
    by (cases "fetch w (length (results s)) ?u") (auto simp add: crawl_body_def Let_def)
  then have f0: "fetch w 0 ?u = Some (code, html)"
    using fetch_fixed [OF assms(2)] by metis
  let ?rs = "results s @ [\<lparr>url = ?u, status_code = code, label = crawl_label code\<rparr>]"
  consider (leaf) "html = [] \<or> same_domain w ?u start = Some False"
      "s' = \<lparr>queue = tl (queue s), visited = visited s, results = ?rs\<rparr>"
    | (expand) links q2 v2 where "html \<noteq> []" "same_domain w ?u start = Some True"
        "get_links w html ?u = Some links"
        "discover w start inc links (tl (queue s), visited s) = Some (q2, v2)"
        "s' = \<lparr>queue = q2, visited = v2, results = ?rs\<rparr>"
    using assms(1) f
    by (auto simp add: crawl_body_def Let_def split: if_splits option.splits)
  then show ?thesis
  proof cases
    case leaf
    then have "page_links w start inc ?u = []"
      using f0 by (auto simp add: page_links_def in_scope_def)
    with leaf show ?thesis by simp
  next
    case expand
    then have pl: "page_links w start inc ?u = filter (\<lambda>l. inc \<or> in_scope w start l) links"
      using f0 by (simp add: page_links_def in_scope_def)
    from discover_accepts [OF expand(4)] expand(5) pl show ?thesis by auto
  qed
qed

lemma crawl_body_bfs_inv:
  assumes b: "crawl_body w start inc s = Some s'" and q: "queue s \<noteq> []"
    and fx: "fixed_responses w" and inv: "bfs_inv w start inc s"
  shows "bfs_inv w start inc s'"
proof -
  let ?u = "hd (queue s)"
  from inv have ci: "crawl_inv s" and st: "start \<in> visited s"
    and vr: "visited s \<subseteq> reachable w start inc"
    and cl: "\<forall>u \<in> set (map url (results s)). set (page_links w start inc u) \<subseteq> visited s"
    by (simp_all add: bfs_inv_def)
  from crawl_body_links [OF b fx]
  have pl: "set (page_links w start inc ?u) \<subseteq> visited s'"
    and vs: "visited s' \<subseteq> visited s \<union> set (page_links w start inc ?u)"
    by simp_all
  from crawl_body_step [OF b] obtain new r where
    step: "visited s' = visited s \<union> set new" "results s' = results s @ [r]" "url r = ?u"
    by force
  have uv: "?u \<in> visited s"
    using ci q by (auto simp add: crawl_inv_def)
  then have ur: "?u \<in> reachable w start inc" using vr by blast
  have "crawl_inv s'" using crawl_body_inv [OF b q ci] .
  moreover have "start \<in> visited s'" using st step(1) by simp
  moreover have "visited s' \<subseteq> reachable w start inc"
  proof
    fix x assume "x \<in> visited s'"
    with vs have "x \<in> visited s \<or> x \<in> set (page_links w start inc ?u)" by blast
    then show "x \<in> reachable w start inc"
      using vr ur reachable.link by blast
  qed
  moreover have "\<forall>u \<in> set (map url (results s')). set (page_links w start inc u) \<subseteq> visited s'"
  proof
    fix x assume "x \<in> set (map url (results s'))"
    then have "x \<in> set (map url (results s)) \<or> x = ?u" using step by auto
    then show "set (page_links w start inc x) \<subseteq> visited s'"
      using cl pl step(1) by blast
  qed
  ultimately show ?thesis by (simp add: bfs_inv_def)
qed

lemma crawl_loop_bfs_inv:
  "crawl_loop w start max_pages inc s = Some t \<Longrightarrow> fixed_responses w \<Longrightarrow>
   bfs_inv w start inc s \<Longrightarrow> bfs_inv w start inc t"
proof (induction w start max_pages inc s rule: crawl_loop.induct)
  case (1 w start max_pages inc s)
  show ?case
  proof (cases "queue s \<noteq> [] \<and> int (length (results s)) < max_pages")
    case True
    with "1.prems"(1) obtain s' where
      b: "crawl_body w start inc s = Some s'" and l: "crawl_loop w start max_pages inc s' = Some t"
      by (subst (asm) crawl_loop.simps) (auto split: option.splits)
    from crawl_body_bfs_inv [OF b _ "1.prems"(2,3)] True have "bfs_inv w start inc s'" by simp
    from "1.IH" [OF True b l "1.prems"(2) this] show ?thesis .
  next
    case False
    with "1.prems" show ?thesis by (subst (asm) crawl_loop.simps) auto
  qed
qed

lemma crawl_loop_exit:
  "crawl_loop w start max_pages inc s = Some t \<Longrightarrow>
   (queue t = [] \<or> max_pages \<le> int (length (results t))) \<and>
   (int (length (results s)) \<le> max_pages \<longrightarrow> int (length (results t)) \<le> max_pages)"
proof (induction w start max_pages inc s rule: crawl_loop.induct)
  case (1 w start max_pages inc s)
  show ?case
  proof (cases "queue s \<noteq> [] \<and> int (length (results s)) < max_pages")
    case True
    with "1.prems"(1) obtain s' where
      b: "crawl_body w start inc s = Some s'" and l: "crawl_loop w start max_pages inc s' = Some t"
      by (subst (asm) crawl_loop.simps) (auto split: option.splits)
    from crawl_body_length [OF b] True have "int (length (results s')) \<le> max_pages" by simp
    with "1.IH" [OF True b l] show ?thesis by simp
  next
    case False
    with "1.prems" show ?thesis by (subst (asm) crawl_loop.simps) auto
  qed
qed

lemma reachable_closed:
  assumes "start \<in> V" and "\<forall>u \<in> V. set (page_links w start inc u) \<subseteq> V"
  shows "reachable w start inc \<subseteq> V"
proof
  fix x assume "x \<in> reachable w start inc"
  then show "x \<in> V"
    by (induction rule: reachable.induct) (use assms in auto)
qed

lemma bfs_inv_initial: "bfs_inv w start inc (initial_state start)"
  by (simp add: bfs_inv_def crawl_inv_def initial_state_def reachable.seed)

lemma crawl_loop_count:
  assumes l: "crawl_loop w start max_pages inc (initial_state start) = Some t"
    and fx: "fixed_responses w" and k: "0 \<le> max_pages"
  shows "set (map url (results t)) \<subseteq> reachable w start inc"
    and "distinct (map url (results t))"
    and "queue t = [] \<or> int (length (results t)) = max_pages"
    and "queue t = [] \<Longrightarrow> reachable w start inc = set (map url (results t))"
    and "int (length (results t)) \<le> max_pages"
proof -
  from crawl_loop_bfs_inv [OF l fx bfs_inv_initial]
  have ci: "crawl_inv t" and st: "start \<in> visited t"
    and vr: "visited t \<subseteq> reachable w start inc"
    and cl: "\<forall>u \<in> set (map url (results t)). set (page_links w start inc u) \<subseteq> visited t"
    by (simp_all add: bfs_inv_def)
  from ci have v: "visited t = set (map url (results t)) \<union> set (queue t)"
    and d: "distinct (map url (results t) @ queue t)"
    by (simp_all add: crawl_inv_def)
  show "set (map url (results t)) \<subseteq> reachable w start inc" using v vr by blast
  show "distinct (map url (results t))" using d by simp
  from crawl_loop_exit [OF l] k
  have ex: "queue t = [] \<or> max_pages \<le> int (length (results t))"
    and le: "int (length (results t)) \<le> max_pages"
    by (simp_all add: initial_state_def)
  show "int (length (results t)) \<le> max_pages" by (rule le)
  show "queue t = [] \<or> int (length (results t)) = max_pages" using ex le by auto
  show "reachable w start inc = set (map url (results t))" if "queue t = []"
  proof -
    from that v have vt: "visited t = set (map url (results t))" by simp
    have "reachable w start inc \<subseteq> visited t"
      using reachable_closed [of start "visited t" w inc] st cl vt by simp
    with vr vt show ?thesis by auto
  qed
qed

lemma crawl_count:
  assumes c: "crawl w start_url max_pages inc = Some rs"
    and n: "normalise w start_url = Some start"
    and fx: "fixed_responses w" and k: "0 \<le> max_pages"
  shows "set (map url rs) \<subseteq> reachable w start inc"
    and "finite (reachable w start inc) \<Longrightarrow>
           int (length rs) = min max_pages (int (card (reachable w start inc)))"
    and "infinite (reachable w start inc) \<Longrightarrow> int (length rs) = max_pages"
proof -
  from c n obtain t where l: "crawl_loop w start max_pages inc (initial_state start) = Some t"
    and rs: "rs = results t"
    by (auto simp add: crawl_def)
  note cc = crawl_loop_count [OF l fx k]
  show sub: "set (map url rs) \<subseteq> reachable w start inc" using cc(1) rs by simp
  have len: "length rs = card (set (map url rs))"
    using cc(2) rs by (metis distinct_card length_map)
  show "int (length rs) = min max_pages (int (card (reachable w start inc)))"
    if fin: "finite (reachable w start inc)"
  proof (cases "queue t = []")
    case True
    from cc(4) [OF True] rs have "reachable w start inc = set (map url rs)" by simp
    with len cc(5) rs show ?thesis by simp
  next
    case False
    with cc(3) rs have "int (length rs) = max_pages" by simp
    moreover have "card (set (map url rs)) \<le> card (reachable w start inc)"
      using sub fin by (rule card_mono [rotated])
    ultimately show ?thesis using len by simp
  qed
  show "int (length rs) = max_pages" if inf: "infinite (reachable w start inc)"
  proof (cases "queue t = []")
    case True
    from cc(4) [OF True] have "finite (reachable w start inc)" by simp
    with inf show ?thesis by simp
  next
    case False
    with cc(3) rs show ?thesis by simp
  qed
qed


lemma reachable_all_in_scope:
  "x \<in> reachable w start False \<Longrightarrow> in_scope w start start \<Longrightarrow> in_scope w start x"
proof (induction rule: reachable.induct)
  case seed
  then show ?case by simp
next
  case (link u l)
  show ?case
  proof (cases "fetch w 0 u")
    case None
    with link.hyps(2) show ?thesis by (simp add: page_links_def)
  next
    case (Some ch)
    obtain code html where f: "fetch w 0 u = Some (code, html)"
      using Some by (cases ch) simp
    have pl: "page_links w start False u =
        (if html \<noteq> [] \<and> in_scope w start u
         then (case get_links w html u of None \<Rightarrow> [] | Some links \<Rightarrow> filter (\<lambda>l. False \<or> in_scope w start l) links)
         else [])"
      by (simp add: page_links_def f)
    from link.hyps(2) pl show ?thesis
      by (cases "get_links w html u"; cases "html \<noteq> [] \<and> in_scope w start u") simp_all
  qed
qed

lemma reachable_in_scope_eq:
  assumes "\<not> inc" and "in_scope w start start"
  shows "reachable w start inc = reachable_in_scope w start inc"
  using assms reachable_all_in_scope [of _ w start]
  by (auto simp add: reachable_in_scope_def)

lemma fixed_responses_table: "fixed_responses (table_world pages anchors)"
  by (simp add: fixed_responses_def table_world_def)

lemma mixed_site_page_links:
  "page_links mixed_site ''http://site.test/'' True ''http://site.test/'' =
     [''http://site.test/a'', ''http://other.test/x'', ''http://site.test/a'']"
  "page_links mixed_site ''http://site.test/'' True ''http://site.test/a'' = []"
  "page_links mixed_site ''http://site.test/'' True ''http://other.test/x'' = []"
  by code_simp+

lemma mixed_site_in_scope:
  "in_scope mixed_site ''http://site.test/'' ''http://site.test/''"
  "in_scope mixed_site ''http://site.test/'' ''http://site.test/a''"
  "\<not> in_scope mixed_site ''http://site.test/'' ''http://other.test/x''"
  by code_simp+

lemma mixed_site_reachable:
  "reachable mixed_site ''http://site.test/'' True =
     {''http://site.test/'', ''http://site.test/a'', ''http://other.test/x''}"
proof
  show "reachable mixed_site ''http://site.test/'' True \<subseteq>
     {''http://site.test/'', ''http://site.test/a'', ''http://other.test/x''}"
    by (rule reachable_closed) (simp_all add: mixed_site_page_links)
next
  have s: "''http://site.test/'' \<in> reachable mixed_site ''http://site.test/'' True"
    by (rule reachable.seed)
  have "''http://site.test/a'' \<in> reachable mixed_site ''http://site.test/'' True"
    by (rule reachable.link [OF s]) (simp add: mixed_site_page_links)
  moreover have "''http://other.test/x'' \<in> reachable mixed_site ''http://site.test/'' True"
    by (rule reachable.link [OF s]) (simp add: mixed_site_page_links)
  ultimately show "{''http://site.test/'', ''http://site.test/a'', ''http://other.test/x''}
     \<subseteq> reachable mixed_site ''http://site.test/'' True"
    using s by simp
qed

lemma mixed_site_reachable_in_scope:
  "reachable_in_scope mixed_site ''http://site.test/'' True =
     {''http://site.test/'', ''http://site.test/a''}"
  using mixed_site_in_scope
  by (auto simp add: reachable_in_scope_def mixed_site_reachable)

text \<open>
  C3, as the claim states it, fails when \<open>include_external\<close> is set: the pages of other
  hosts that the seed's site links to are fetched and recorded too. On \<open>mixed_site\<close> two
  URLs are reachable and in scope, the budget is 10 and the crawl returns three results.
\<close>

theorem C3_counterexample:
  "normalise mixed_site ''http://site.test/'' = Some ''http://site.test/'' \<and>
   map_option length (crawl mixed_site ''http://site.test/'' 10 True) = Some 3 \<and>
   card (reachable_in_scope mixed_site ''http://site.test/'' True) = 2 \<and>
   int 3 \<noteq> min 10 (int 2)"
proof -
  have "normalise mixed_site ''http://site.test/'' = Some ''http://site.test/''"
    by code_simp
  moreover have "map_option length (crawl mixed_site ''http://site.test/'' 10 True) = Some 3"
    by (simp add: mixed_site_crawl)
  moreover have "card (reachable_in_scope mixed_site ''http://site.test/'' True) = 2"
    by (simp add: mixed_site_reachable_in_scope)
  ultimately show ?thesis by simp
qed

text \<open>
  C3 (amended): the loop always ends, with an empty queue or with \<open>max_pages\<close> results. For
  a budget \<open>max_pages \<ge> 1\<close>, fixed responses and a crawl that returns, every result is a
  reachable URL and the number of results is the minimum of \<open>max_pages\<close> and the number of
  reachable URLs (\<open>max_pages\<close> if there are infinitely many), where the reachable URLs
  include the pages of other hosts linked from the seed's site when \<open>include_external\<close> is
  set. Without \<open>include_external\<close> every reachable URL is in scope.
\<close>

theorem C3_page_budget:
  "(crawl_loop w start max_pages inc s = Some t \<longrightarrow>
      queue t = [] \<or> max_pages \<le> int (length (results t))) \<and>
   (fixed_responses w \<and> 1 \<le> max_pages \<and> normalise w start_url = Some start \<and>
    crawl w start_url max_pages inc = Some rs \<longrightarrow>
      set (map url rs) \<subseteq> reachable w start inc \<and>
      (finite (reachable w start inc) \<longrightarrow>
         int (length rs) = min max_pages (int (card (reachable w start inc)))) \<and>
      (infinite (reachable w start inc) \<longrightarrow> int (length rs) = max_pages)) \<and>
   (\<not> inc \<and> in_scope w start start \<longrightarrow>
      reachable w start inc = reachable_in_scope w start inc)"
proof (intro conjI impI)
  assume "crawl_loop w start max_pages inc s = Some t"
  then show "queue t = [] \<or> max_pages \<le> int (length (results t))"
    by (simp add: crawl_loop_exit)
next
  assume a: "fixed_responses w \<and> 1 \<le> max_pages \<and> normalise w start_url = Some start \<and>
    crawl w start_url max_pages inc = Some rs"
  then have c: "crawl w start_url max_pages inc = Some rs"
    and n: "normalise w start_url = Some start"
    and fx: "fixed_responses w" and k: "0 \<le> max_pages"
    by simp_all
  show "set (map url rs) \<subseteq> reachable w start inc"
    by (rule crawl_count(1) [OF c n fx k])
  show "int (length rs) = min max_pages (int (card (reachable w start inc)))"
    if "finite (reachable w start inc)"
    using that by (rule crawl_count(2) [OF c n fx k])
  show "int (length rs) = max_pages" if "infinite (reachable w start inc)"
    using that by (rule crawl_count(3) [OF c n fx k])
next
  assume "\<not> inc \<and> in_scope w start start"
  then show "reachable w start inc = reachable_in_scope w start inc"
    by (simp add: reachable_in_scope_eq)
qed

theorem C3_page_budget_witness:
  "fixed_responses bfs_site \<and>
   normalise bfs_site ''http://site.test/#top'' = Some ''http://site.test/'' \<and>
   map_option length (crawl bfs_site ''http://site.test/#top'' 10 False) = Some 4 \<and>
   finite (reachable bfs_site ''http://site.test/'' False) \<and>
   card (reachable bfs_site ''http://site.test/'' False) = 4"
proof -
  have fx: "fixed_responses bfs_site"
    by (simp add: bfs_site_def fixed_responses_table)
  have n: "normalise bfs_site ''http://site.test/#top'' = Some ''http://site.test/''"
    by code_simp
  note c = bfs_site_crawl
  have k: "(1::int) \<le> 10" by simp
  from C3_page_budget [where w = bfs_site and max_pages = 10 and inc = False
      and start_url = "''http://site.test/#top''" and start = "''http://site.test/''"
      and rs = "the (crawl bfs_site ''http://site.test/#top'' 10 False)"] fx n c k
  have fin: "finite (reachable bfs_site ''http://site.test/'' False) \<longrightarrow>
      (4::int) = min 10 (int (card (reachable bfs_site ''http://site.test/'' False)))"
    and inf: "infinite (reachable bfs_site ''http://site.test/'' False) \<longrightarrow> (4::int) = 10"
    by simp_all
  from inf have f: "finite (reachable bfs_site ''http://site.test/'' False)" by auto
  with fin have "card (reachable bfs_site ''http://site.test/'' False) = 4" by simp
  with fx n c f show ?thesis by simp
qed

section \<open>Normalisation\<close>

subsection \<open>Cutting at the first occurrence of a character\<close>

lemma before_notin [simp]: "c \<notin> set s \<Longrightarrow> before c s = s"
  by (induction s) (auto simp add: before_def)

lemma after_notin [simp]: "c \<notin> set s \<Longrightarrow> after c s = []"
  by (induction s) (auto simp add: after_def)

lemma before_append [simp]: "c \<notin> set a \<Longrightarrow> before c (a @ c # b) = a"
  by (induction a) (auto simp add: before_def)

lemma after_append [simp]: "c \<notin> set a \<Longrightarrow> after c (a @ c # b) = b"
  by (induction a) (auto simp add: after_def)

lemma before_after: "c \<in> set s \<Longrightarrow> s = before c s @ c # after c s"
proof -
  assume "c \<in> set s"
  then have "dropWhile (\<lambda>x. x \<noteq> c) s \<noteq> []" by simp
  then have "dropWhile (\<lambda>x. x \<noteq> c) s = c # drop 1 (dropWhile (\<lambda>x. x \<noteq> c) s)"
    by (metis (mono_tags, lifting) drop0 drop_Suc_Cons hd_dropWhile list.collapse One_nat_def)
  then show ?thesis
    by (metis after_def before_def takeWhile_dropWhile_id)
qed

lemma before_notmem: "c \<notin> set (before c s)"
  by (metis before_def set_takeWhileD)

lemma set_before: "set (before c s) \<subseteq> set s"
  by (metis before_def set_takeWhileD subsetI)

lemma set_after: "set (after c s) \<subseteq> set s"
  by (metis after_def set_drop_subset set_dropWhileD subsetI subset_iff)

lemma before_prefix: "c \<in> set p \<Longrightarrow> before c (p @ t) = before c p"
  by (simp add: before_def)

lemma before_append_notin: "c \<notin> set p \<Longrightarrow> before c (p @ t) = p @ before c t"
  by (induction p) (auto simp add: before_def)

lemma after_append_notin: "c \<notin> set p \<Longrightarrow> after c (p @ t) = after c t"
  by (induction p) (auto simp add: after_def)

lemma after_prefix: "c \<in> set p \<Longrightarrow> after c (p @ t) = after c p @ t"
  by (induction p) (auto simp add: after_def)

subsection \<open>Cleaning\<close>

lemma unsafe_C0: "c \<in> set UNSAFE_URL_BYTES_TO_REMOVE \<Longrightarrow> C0_CONTROL_OR_SPACE c"
  by (auto simp add: UNSAFE_URL_BYTES_TO_REMOVE_def C0_CONTROL_OR_SPACE_def)

lemma is_clean_cleanurl: "is_clean (cleanurl u)"
proof (cases "dropWhile C0_CONTROL_OR_SPACE u")
  case Nil
  then have "cleanurl u = []" by (simp only: cleanurl_def remove_unsafe_def filter.simps)
  then show ?thesis by (simp add: is_clean_def is_safe_def)
next
  case (Cons a y)
  then have "\<not> C0_CONTROL_OR_SPACE a"
    by (metis hd_dropWhile list.distinct(1) list.sel(1))
  then have "a \<notin> set UNSAFE_URL_BYTES_TO_REMOVE" using unsafe_C0 by blast
  with Cons \<open>\<not> C0_CONTROL_OR_SPACE a\<close> show ?thesis
    by (simp add: cleanurl_def is_clean_def is_safe_def remove_unsafe_def)
qed

lemma cleanurl_is_clean: "is_clean s \<Longrightarrow> cleanurl s = s"
  by (cases s) (auto simp add: cleanurl_def is_clean_def is_safe_def remove_unsafe_def
      filter_id_conv)

lemma is_safe_append [simp]: "is_safe (a @ b) \<longleftrightarrow> is_safe a \<and> is_safe b"
  by (auto simp add: is_safe_def)

lemma is_safe_Cons [simp]:
  "is_safe (c # s) \<longleftrightarrow> c \<notin> set UNSAFE_URL_BYTES_TO_REMOVE \<and> is_safe s"
  by (auto simp add: is_safe_def)

lemma is_safe_Nil [simp]: "is_safe []"
  by (simp add: is_safe_def)

lemma is_safe_subset: "set a \<subseteq> set b \<Longrightarrow> is_safe b \<Longrightarrow> is_safe a"
  by (auto simp add: is_safe_def)

subsection \<open>The split of a cleaned URL\<close>

lemma netloc_ok_Nil [simp]: "netloc_ok w []"
  by (simp add: netloc_ok_def checknetloc_def)

lemma urlsplit_clean:
  "urlsplit w u [] =
     (case split_clean (cleanurl u) of
        (sch, nl, p, q) \<Rightarrow>
          if netloc_ok w nl
          then Some (sch, nl, p, q,
                 after CHR ''#'' (snd (split_netloc (snd (split_scheme (cleanurl u))))))
          else None)"
proof -
  have b: "(if c \<in> set s then (before c s, after c s) else (s, [])) = (before c s, after c s)"
    for c :: char and s
    by simp
  show ?thesis
    unfolding urlsplit_def split_clean_def cleanurl_def [symmetric] b Let_def
    by (auto simp add: split_scheme_def split_netloc_def netloc_ok_def strip_chars_def
        remove_unsafe_def split: prod.splits)
qed

lemma normalise_clean:
  "normalise w u =
     (if netloc_ok w (fst (snd (split_clean (cleanurl u))))
      then Some (build w (split_clean (cleanurl u))) else None)"
  by (auto simp add: normalise_def urlparse_def urlsplit_clean geturl_def urlunparse_def
      build_def rejoin_def params_split_def Let_def split: prod.splits)

lemma urlparse_netloc:
  "map_option netloc (urlparse w u []) =
     (if netloc_ok w (fst (snd (split_clean (cleanurl u))))
      then Some (fst (snd (split_clean (cleanurl u)))) else None)"
  by (auto simp add: urlparse_def urlsplit_clean Let_def split: prod.splits)

subsection \<open>Schemes\<close>

lemma scheme_char_plain:
  assumes "c \<in> set scheme_chars"
  shows "c \<noteq> CHR '':''" "c \<noteq> CHR ''/''" "c \<noteq> CHR ''?''" "c \<noteq> CHR ''#''" "c \<noteq> CHR '';''"
    "\<not> C0_CONTROL_OR_SPACE c" "c \<notin> set UNSAFE_URL_BYTES_TO_REMOVE"
  using assms
  by (auto simp add: scheme_chars_def C0_CONTROL_OR_SPACE_def UNSAFE_URL_BYTES_TO_REMOVE_def)

lemma letters_scheme_chars:
  "c \<in> set (ascii_lowercase @ ascii_uppercase) \<Longrightarrow> c \<in> set scheme_chars"
  by (auto simp add: ascii_lowercase_def ascii_uppercase_def scheme_chars_def)

lemma lower_char_cases:
  "lower_char c = c \<or> (c \<in> set ascii_uppercase \<and> lower_char c \<in> set ascii_lowercase)"
proof (cases "map_of (zip ascii_uppercase ascii_lowercase) c")
  case None
  then show ?thesis by (simp add: lower_char_def)
next
  case (Some l)
  then have "(c, l) \<in> set (zip ascii_uppercase ascii_lowercase)"
    by (rule map_of_SomeD)
  then have "c \<in> set ascii_uppercase" "l \<in> set ascii_lowercase"
    by (auto dest: set_zip_leftD set_zip_rightD)
  with Some show ?thesis by (simp add: lower_char_def)
qed

lemma lower_char_lowercase: "c \<in> set ascii_lowercase \<Longrightarrow> lower_char c = c"
proof -
  assume "c \<in> set ascii_lowercase"
  then have "c \<notin> set ascii_uppercase"
    by (auto simp add: ascii_lowercase_def ascii_uppercase_def)
  then show ?thesis
    using lower_char_cases [of c] by blast
qed

lemma lower_char_idem: "lower_char (lower_char c) = lower_char c"
  using lower_char_cases [of c] lower_char_lowercase by auto

lemma lower_char_scheme: "c \<in> set scheme_chars \<Longrightarrow> lower_char c \<in> set scheme_chars"
  using lower_char_cases [of c] letters_scheme_chars by auto

lemma lower_char_letter:
  "c \<in> set (ascii_lowercase @ ascii_uppercase) \<Longrightarrow>
   lower_char c \<in> set (ascii_lowercase @ ascii_uppercase)"
  using lower_char_cases [of c] by auto

lemma norm_scheme_lower: "valid_scheme s \<Longrightarrow> norm_scheme (lower s)"
proof -
  assume v: "valid_scheme s"
  then obtain c r where s: "s = c # r" by (cases s) (auto simp add: valid_scheme_def)
  have "valid_scheme (lower s)"
    using v lower_char_letter lower_char_scheme
    by (auto simp add: valid_scheme_def lower_def s)
  moreover have "lower (lower s) = lower s"
    by (simp add: lower_def lower_char_idem)
  ultimately show ?thesis by (simp add: norm_scheme_def)
qed

lemma valid_scheme_colon: "valid_scheme s \<Longrightarrow> CHR '':'' \<notin> set s"
  using scheme_char_plain(1) by (auto simp add: valid_scheme_def)

lemma has_scheme_intro: "valid_scheme s \<Longrightarrow> has_scheme (s @ CHR '':'' # r)"
proof -
  assume v: "valid_scheme s"
  then have b: "before CHR '':'' (s @ CHR '':'' # r) = s"
    by (simp add: valid_scheme_colon)
  from v have "hd (s @ CHR '':'' # r) = hd s" by (simp add: valid_scheme_def)
  with v b show ?thesis
    by (auto simp add: has_scheme_def valid_scheme_def list_all_iff)
qed

lemma has_scheme_elim:
  assumes "has_scheme x"
  shows "valid_scheme (before CHR '':'' x)"
    and "x = before CHR '':'' x @ CHR '':'' # after CHR '':'' x"
proof -
  from assms have c: "CHR '':'' \<in> set x" and ne: "before CHR '':'' x \<noteq> []"
    and h: "hd x \<in> set (ascii_lowercase @ ascii_uppercase)"
    and a: "set (before CHR '':'' x) \<subseteq> set scheme_chars"
    by (auto simp add: has_scheme_def list_all_iff)
  show x: "x = before CHR '':'' x @ CHR '':'' # after CHR '':'' x"
    using c by (rule before_after)
  from ne have "hd x = hd (before CHR '':'' x)"
    by (subst x) simp
  with ne h a show "valid_scheme (before CHR '':'' x)"
    by (simp add: valid_scheme_def)
qed

lemma has_scheme_append:
  assumes "t = [] \<or> (hd t \<notin> set scheme_chars \<and> hd t \<noteq> CHR '':'')"
  shows "has_scheme (p @ t) = has_scheme p"
proof (cases "CHR '':'' \<in> set p")
  case True
  then have "p \<noteq> []" by auto
  with True show ?thesis
    by (simp add: has_scheme_def before_prefix)
next
  case False
  then have np: "\<not> has_scheme p" by (simp add: has_scheme_def)
  have "\<not> has_scheme (p @ t)"
  proof
    assume hs: "has_scheme (p @ t)"
    then have ct: "CHR '':'' \<in> set t" using False by (auto simp add: has_scheme_def)
    then obtain c r where t: "t = c # r" by (cases t) auto
    with assms have c: "c \<notin> set scheme_chars" "c \<noteq> CHR '':''" by auto
    have "before CHR '':'' (p @ t) = p @ before CHR '':'' t"
      using False by (rule before_append_notin)
    moreover have "c \<in> set (before CHR '':'' t)"
      using c(2) by (simp add: before_def t)
    ultimately have "c \<in> set (before CHR '':'' (p @ t))" by simp
    with hs c(1) show False
      by (auto simp add: has_scheme_def list_all_iff)
  qed
  with np show ?thesis by simp
qed

lemma split_scheme_build:
  assumes "valid_scheme s" and "lower s = s"
  shows "split_scheme (s @ CHR '':'' # r) = (s, r)"
  using assms has_scheme_intro [OF assms(1), of r]
  by (simp add: split_scheme_def valid_scheme_colon)

lemma split_scheme_none: "\<not> has_scheme x \<Longrightarrow> split_scheme x = ([], x)"
  by (simp add: split_scheme_def)

lemma split_scheme_facts:
  assumes "split_scheme x = (sch, u2)"
  shows "norm_scheme sch" and "set u2 \<subseteq> set x"
    and "sch = [] \<longleftrightarrow> \<not> has_scheme x"
    and "sch = [] \<Longrightarrow> u2 = x"
proof -
  show "norm_scheme sch"
    using assms has_scheme_elim(1) [of x] norm_scheme_lower
    by (auto simp add: split_scheme_def norm_scheme_def split: if_splits)
  show "set u2 \<subseteq> set x"
    using assms set_after by (auto simp add: split_scheme_def split: if_splits)
  show e: "sch = [] \<longleftrightarrow> \<not> has_scheme x"
    using assms has_scheme_elim(1) [of x]
    by (auto simp add: split_scheme_def valid_scheme_def lower_def split: if_splits)
  show "u2 = x" if "sch = []"
    using that e assms by (simp add: split_scheme_def)
qed

subsection \<open>Parameters\<close>

lemma dropWhile_first: "c \<notin> set a \<Longrightarrow> dropWhile (\<lambda>x. x \<noteq> c) (a @ c # b) = c # b"
  by (induction a) auto

lemma rfind_split_last: "c \<notin> set seg \<Longrightarrow> rfind_split c (h @ c # seg) = (h, c # seg)"
proof -
  assume n: "c \<notin> set seg"
  have r: "rev (h @ c # seg) = rev seg @ c # rev h" by simp
  have "takeWhile (\<lambda>x. x \<noteq> c) (rev seg @ c # rev h) = rev seg"
    using n before_append [of c "rev seg" "rev h"] by (simp add: before_def)
  moreover have "dropWhile (\<lambda>x. x \<noteq> c) (rev seg @ c # rev h) = c # rev h"
    using n dropWhile_first [of c "rev seg" "rev h"] by simp
  ultimately show ?thesis
    unfolding rfind_split_def r by simp
qed

lemma slash_decomp:
  "c \<in> set X \<Longrightarrow> \<exists>h seg. X = h @ c # seg \<and> c \<notin> set seg"
  by (rule split_list_last)

lemma before_Cons_neq [simp]: "x \<noteq> c \<Longrightarrow> before c (x # s) = x # before c s"
  by (simp add: before_def)

lemma after_Cons_neq [simp]: "x \<noteq> c \<Longrightarrow> after c (x # s) = after c s"
  by (simp add: after_def)

lemma before_Cons_eq [simp]: "before c (c # s) = []"
  by (simp add: before_def)

lemma after_Cons_eq [simp]: "after c (c # s) = s"
  by (simp add: after_def)

lemma splitparams_slash:
  "CHR ''/'' \<notin> set seg \<Longrightarrow>
   splitparams (h @ CHR ''/'' # seg) =
     (if CHR '';'' \<notin> set seg then (h @ CHR ''/'' # seg, [])
      else (h @ CHR ''/'' # before CHR '';'' seg, after CHR '';'' seg))"
  by (simp add: splitparams_def rfind_split_last)

lemma splitparams_noslash:
  "CHR ''/'' \<notin> set X \<Longrightarrow> CHR '';'' \<in> set X \<Longrightarrow>
   splitparams X = (before CHR '';'' X, after CHR '';'' X)"
  by (simp add: splitparams_def)

lemma params_split_cases:
  obtains (whole) "params_split sch X = (X, [])"
  | (slash) h seg where "X = h @ CHR ''/'' # seg" "CHR ''/'' \<notin> set seg" "CHR '';'' \<in> set seg"
      "params_split sch X = (h @ CHR ''/'' # before CHR '';'' seg, after CHR '';'' seg)"
  | (noslash) "CHR ''/'' \<notin> set X" "CHR '';'' \<in> set X"
      "params_split sch X = (before CHR '';'' X, after CHR '';'' X)"
proof (cases "sch \<in> set uses_params \<and> CHR '';'' \<in> set X")
  case False
  then have "params_split sch X = (X, [])" by (auto simp add: params_split_def)
  then show ?thesis by (rule whole)
next
  case True
  then have ps: "params_split sch X = splitparams X"
    by (simp add: params_split_def)
  show ?thesis
  proof (cases "CHR ''/'' \<in> set X")
    case False
    from True have semi: "CHR '';'' \<in> set X" by simp
    have "params_split sch X = (before CHR '';'' X, after CHR '';'' X)"
      unfolding ps using False semi by (rule splitparams_noslash)
    with False semi show ?thesis by (rule noslash)
  next
    case sl: True
    from slash_decomp [OF sl] obtain h seg
      where X: "X = h @ CHR ''/'' # seg" and seg: "CHR ''/'' \<notin> set seg"
      by (elim exE conjE)
    have sp: "splitparams (h @ CHR ''/'' # seg) =
      (if CHR '';'' \<notin> set seg then (h @ CHR ''/'' # seg, [])
       else (h @ CHR ''/'' # before CHR '';'' seg, after CHR '';'' seg))"
      by (rule splitparams_slash [OF seg])
    show ?thesis
    proof (cases "CHR '';'' \<in> set seg")
      case True
      have "params_split sch X = (h @ CHR ''/'' # before CHR '';'' seg, after CHR '';'' seg)"
        unfolding ps unfolding X sp using True by simp
      with X seg True show ?thesis by (rule slash)
    next
      case False
      have "params_split sch X = (X, [])"
        unfolding ps unfolding X sp using False by simp
      then show ?thesis by (rule whole)
    qed
  qed
qed

lemma params_split_plain:
  "CHR '';'' \<notin> set X \<Longrightarrow> params_split sch X = (X, [])"
  by (simp add: params_split_def)

lemma rejoin_prefix:
  "rejoin (params_split sch X) = X \<or> X = rejoin (params_split sch X) @ '';''"
proof (cases sch X rule: params_split_cases)
  case whole
  then show ?thesis by (simp add: rejoin_def)
next
  case (slash h seg)
  from slash(3) have "before CHR '';'' seg @ CHR '';'' # after CHR '';'' seg = seg"
    by (rule before_after [symmetric])
  then show ?thesis
    using slash(1,4) by (cases "after CHR '';'' seg = []") (simp_all add: rejoin_def)
next
  case noslash
  from noslash(2) have "before CHR '';'' X @ CHR '';'' # after CHR '';'' X = X"
    by (rule before_after [symmetric])
  then show ?thesis
    using noslash(3) by (cases "after CHR '';'' X = []") (simp_all add: rejoin_def)
qed

lemma params_split_rejoin:
  "params_split sch (rejoin (params_split sch X)) = params_split sch X"
proof (cases sch X rule: params_split_cases)
  case whole
  then show ?thesis by (simp add: rejoin_def)
next
  case (slash h seg)
  from slash(3) have seg: "before CHR '';'' seg @ CHR '';'' # after CHR '';'' seg = seg"
    by (rule before_after [symmetric])
  show ?thesis
  proof (cases "after CHR '';'' seg = []")
    case False
    with slash(4) have "rejoin (params_split sch X) = h @ CHR ''/'' # seg"
      using seg by (simp add: rejoin_def)
    with slash(1) show ?thesis by simp
  next
    case True
    with slash(4) have r: "rejoin (params_split sch X) = h @ CHR ''/'' # before CHR '';'' seg"
      by (simp add: rejoin_def)
    have "CHR ''/'' \<notin> set (before CHR '';'' seg)"
      using slash(2) set_before by fastforce
    then have "splitparams (h @ CHR ''/'' # before CHR '';'' seg) =
      (h @ CHR ''/'' # before CHR '';'' seg, [])"
      by (simp add: splitparams_slash before_notmem)
    then have "params_split sch (h @ CHR ''/'' # before CHR '';'' seg) =
      (h @ CHR ''/'' # before CHR '';'' seg, [])"
      by (simp add: params_split_def)
    with r slash(4) True show ?thesis by simp
  qed
next
  case noslash
  from noslash(2) have X: "before CHR '';'' X @ CHR '';'' # after CHR '';'' X = X"
    by (rule before_after [symmetric])
  show ?thesis
  proof (cases "after CHR '';'' X = []")
    case False
    with noslash(3) have "rejoin (params_split sch X) = X"
      using X by (simp add: rejoin_def)
    then show ?thesis by simp
  next
    case True
    with noslash(3) have r: "rejoin (params_split sch X) = before CHR '';'' X"
      by (simp add: rejoin_def)
    with noslash(3) True show ?thesis
      by (simp add: params_split_plain before_notmem)
  qed
qed

lemma params_split_slash_Cons:
  "params_split sch (CHR ''/'' # P) =
     (CHR ''/'' # fst (params_split sch P), snd (params_split sch P))"
proof (cases "sch \<in> set uses_params \<and> CHR '';'' \<in> set P")
  case False
  then have "params_split sch P = (P, [])" and "params_split sch (CHR ''/'' # P) = (CHR ''/'' # P, [])"
    by (auto simp add: params_split_def)
  then show ?thesis by simp
next
  case True
  then have ps: "params_split sch P = splitparams P"
    and psc: "params_split sch (CHR ''/'' # P) = splitparams (CHR ''/'' # P)"
    by (simp_all add: params_split_def)
  show ?thesis
  proof (cases "CHR ''/'' \<in> set P")
    case False
    have "splitparams ([] @ CHR ''/'' # P) =
      ([] @ CHR ''/'' # before CHR '';'' P, after CHR '';'' P)"
      using splitparams_slash [OF False, of "[]"] True by simp
    then have "splitparams (CHR ''/'' # P) = (CHR ''/'' # before CHR '';'' P, after CHR '';'' P)"
      by simp
    moreover have "splitparams P = (before CHR '';'' P, after CHR '';'' P)"
      using False True by (simp add: splitparams_noslash)
    ultimately show ?thesis by (simp add: ps psc)
  next
    case sl: True
    from slash_decomp [OF sl] obtain h seg
      where P: "P = h @ CHR ''/'' # seg" and seg: "CHR ''/'' \<notin> set seg"
      by (elim exE conjE)
    have a: "splitparams ((CHR ''/'' # h) @ CHR ''/'' # seg) =
      (if CHR '';'' \<notin> set seg then ((CHR ''/'' # h) @ CHR ''/'' # seg, [])
       else ((CHR ''/'' # h) @ CHR ''/'' # before CHR '';'' seg, after CHR '';'' seg))"
      by (rule splitparams_slash [OF seg])
    have b: "splitparams (h @ CHR ''/'' # seg) =
      (if CHR '';'' \<notin> set seg then (h @ CHR ''/'' # seg, [])
       else (h @ CHR ''/'' # before CHR '';'' seg, after CHR '';'' seg))"
      by (rule splitparams_slash [OF seg])
    have "params_split sch (CHR ''/'' # P) = splitparams ((CHR ''/'' # h) @ CHR ''/'' # seg)"
      using psc by (simp add: P)
    also note a
    finally have A: "params_split sch (CHR ''/'' # P) =
      (if CHR '';'' \<notin> set seg then ((CHR ''/'' # h) @ CHR ''/'' # seg, [])
       else ((CHR ''/'' # h) @ CHR ''/'' # before CHR '';'' seg, after CHR '';'' seg))" .
    have "params_split sch P = splitparams (h @ CHR ''/'' # seg)"
      using ps by (simp add: P)
    also note b
    finally have B: "params_split sch P =
      (if CHR '';'' \<notin> set seg then (h @ CHR ''/'' # seg, [])
       else (h @ CHR ''/'' # before CHR '';'' seg, after CHR '';'' seg))" .
    show ?thesis
      unfolding A B by simp
  qed
qed

lemma rejoin_slash_Cons:
  "rejoin (params_split sch (CHR ''/'' # P)) = CHR ''/'' # rejoin (params_split sch P)"
  by (simp add: params_split_slash_Cons rejoin_def)

lemma set_rejoin: "set (rejoin (params_split sch X)) \<subseteq> set X"
proof (cases "rejoin (params_split sch X) = X")
  case True
  then show ?thesis by simp
next
  case False
  with rejoin_prefix [of sch X] have "X = rejoin (params_split sch X) @ '';''" by simp
  then have "set X = set (rejoin (params_split sch X)) \<union> {CHR '';''}"
    by (metis list.set(1) list.simps(15) set_append)
  then show ?thesis by blast
qed

subsection \<open>Network location, path and query\<close>

lemma takeWhile_delim_led: "delim_led r \<Longrightarrow> takeWhile (\<lambda>c. \<not> netloc_delim c) r = []"
  by (cases r) (simp_all add: delim_led_def)

lemma dropWhile_delim_led: "delim_led r \<Longrightarrow> dropWhile (\<lambda>c. \<not> netloc_delim c) r = r"
  by (cases r) (simp_all add: delim_led_def)

lemma takeWhile_delim_free:
  "delim_free nl \<Longrightarrow> delim_led r \<Longrightarrow> takeWhile (\<lambda>c. \<not> netloc_delim c) (nl @ r) = nl"
  by (induction nl) (simp_all add: delim_free_def takeWhile_delim_led)

lemma dropWhile_delim_free:
  "delim_free nl \<Longrightarrow> delim_led r \<Longrightarrow> dropWhile (\<lambda>c. \<not> netloc_delim c) (nl @ r) = r"
  by (induction nl) (simp_all add: delim_free_def dropWhile_delim_led)

lemma split_netloc_build:
  "delim_free nl \<Longrightarrow> delim_led r \<Longrightarrow> split_netloc (''//'' @ nl @ r) = (nl, r)"
  by (simp add: split_netloc_def splitnetloc_def takeWhile_delim_free dropWhile_delim_free)

lemma split_netloc_none: "take 2 x \<noteq> ''//'' \<Longrightarrow> split_netloc x = ([], x)"
  by (simp add: split_netloc_def)

lemma take2_slashes: "take 2 x = ''//'' \<Longrightarrow> x = ''//'' @ drop 2 x"
  by (metis append_take_drop_id)

lemma split_netloc_facts:
  assumes "split_netloc x = (nl, r)"
  shows "delim_free nl"
    and "(take 2 x = ''//'' \<and> x = ''//'' @ nl @ r \<and> delim_led r) \<or>
         (take 2 x \<noteq> ''//'' \<and> nl = [] \<and> r = x)"
proof -
  show "delim_free nl"
    using assms
    by (auto simp add: split_netloc_def splitnetloc_def delim_free_def
        dest: set_takeWhileD split: if_splits)
  show "(take 2 x = ''//'' \<and> x = ''//'' @ nl @ r \<and> delim_led r) \<or>
         (take 2 x \<noteq> ''//'' \<and> nl = [] \<and> r = x)"
  proof (cases "take 2 x = ''//''")
    case False
    with assms show ?thesis by (simp add: split_netloc_def)
  next
    case True
    with assms have nl: "nl = takeWhile (\<lambda>c. \<not> netloc_delim c) (drop 2 x)"
      and r: "r = dropWhile (\<lambda>c. \<not> netloc_delim c) (drop 2 x)"
      by (simp_all add: split_netloc_def splitnetloc_def)
    have "nl @ r = drop 2 x" by (simp add: nl r)
    with take2_slashes [OF True] have "x = ''//'' @ nl @ r" by simp
    moreover have "delim_led r"
      unfolding delim_led_def r
      by (metis (mono_tags, lifting) hd_dropWhile)
    ultimately show ?thesis using True by blast
  qed
qed

lemma extract_build:
  assumes "CHR ''?'' \<notin> set P" and "CHR ''#'' \<notin> set P" and "CHR ''#'' \<notin> set q"
  shows "before CHR ''?'' (before CHR ''#'' (P @ optq q)) = P"
    and "after CHR ''?'' (before CHR ''#'' (P @ optq q)) = q"
proof -
  have h: "CHR ''#'' \<notin> set (P @ optq q)"
    using assms by (simp add: optq_def)
  then have b: "before CHR ''#'' (P @ optq q) = P @ optq q"
    by (rule before_notin)
  show "before CHR ''?'' (before CHR ''#'' (P @ optq q)) = P"
    unfolding b using assms(1) by (simp add: optq_def)
  show "after CHR ''?'' (before CHR ''#'' (P @ optq q)) = q"
    unfolding b using assms(1) by (simp add: optq_def)
qed

lemma extract_facts:
  fixes r :: string
  defines "p \<equiv> before CHR ''?'' (before CHR ''#'' r)"
    and "q \<equiv> after CHR ''?'' (before CHR ''#'' r)"
  shows "CHR ''?'' \<notin> set p" and "CHR ''#'' \<notin> set p" and "CHR ''#'' \<notin> set q"
    and "set p \<subseteq> set r" and "set q \<subseteq> set r"
    and "\<exists>t. r = p @ t \<and> (t = [] \<or> hd t = CHR ''?'' \<or> hd t = CHR ''#'')"
proof -
  let ?u = "before CHR ''#'' r"
  have hu: "CHR ''#'' \<notin> set ?u" by (rule before_notmem)
  show "CHR ''?'' \<notin> set p" unfolding p_def by (rule before_notmem)
  show "CHR ''#'' \<notin> set p" unfolding p_def using hu set_before by fastforce
  show "CHR ''#'' \<notin> set q" unfolding q_def using hu set_after by fastforce
  have ur: "set ?u \<subseteq> set r" by (rule set_before)
  show "set p \<subseteq> set r" unfolding p_def using ur set_before by fastforce
  show "set q \<subseteq> set r" unfolding q_def using ur set_after by fastforce
  have 1: "\<exists>t. r = ?u @ t \<and> (t = [] \<or> hd t = CHR ''#'')"
  proof (cases "CHR ''#'' \<in> set r")
    case True
    from before_after [OF True] show ?thesis by (metis list.sel(1))
  next
    case False
    then show ?thesis by simp
  qed
  have 2: "\<exists>t. ?u = p @ t \<and> (t = [] \<or> hd t = CHR ''?'')"
  proof (cases "CHR ''?'' \<in> set ?u")
    case True
    from before_after [OF True] show ?thesis unfolding p_def by (metis list.sel(1))
  next
    case False
    then show ?thesis unfolding p_def by simp
  qed
  from 1 obtain t1 where t1: "r = ?u @ t1" "t1 = [] \<or> hd t1 = CHR ''#''" by (elim exE conjE)
  from 2 obtain t2 where t2: "?u = p @ t2" "t2 = [] \<or> hd t2 = CHR ''?''" by (elim exE conjE)
  have "r = p @ (t2 @ t1)" using t1(1) t2(1) by (metis append.assoc)
  moreover have "t2 @ t1 = [] \<or> hd (t2 @ t1) = CHR ''?'' \<or> hd (t2 @ t1) = CHR ''#''"
    using t1(2) t2(2) by (cases t2) auto
  ultimately show "\<exists>t. r = p @ t \<and> (t = [] \<or> hd t = CHR ''?'' \<or> hd t = CHR ''#'')"
    by (intro exI conjI)
qed

subsection \<open>Splitting a URL that was put together\<close>

lemma urlunsplit_form:
  assumes "legacy_urlunsplit w \<longrightarrow> nl \<noteq> [] \<or> take 2 P \<noteq> ''//''"
  shows "urlunsplit w sch nl P q [] =
     opts sch @
     (if nl \<noteq> [] \<or> (sch \<noteq> [] \<and> sch \<in> set (uses_netloc w)) \<or> take 2 P = ''//''
      then ''//'' @ nl @ (if P \<noteq> [] \<and> take 1 P \<noteq> ''/'' then CHR ''/'' # P else P)
      else P) @ optq q"
  using assms by (auto simp add: urlunsplit_def opts_def optq_def Let_def)

lemma urlunsplit_opts:
  "\<exists>X. urlunsplit w sch nl P q f = opts sch @ X"
  by (simp add: urlunsplit_def opts_def Let_def)

lemma take1_slash: "P \<noteq> [] \<Longrightarrow> (take 1 P = ''/'') = (hd P = CHR ''/'')"
  by (cases P) simp_all

lemma take2_optq: "take 2 P \<noteq> ''//'' \<Longrightarrow> take 2 (P @ optq q) \<noteq> ''//''"
proof (cases P)
  case Nil
  assume "take 2 P \<noteq> ''//''"
  show ?thesis using Nil by (simp add: optq_def)
next
  case (Cons a P1)
  assume n: "take 2 P \<noteq> ''//''"
  show ?thesis
  proof (cases P1)
    case Nil
    with Cons show ?thesis by (simp add: optq_def)
  next
    case (Cons b P2)
    with \<open>P = a # P1\<close> n show ?thesis by simp
  qed
qed

lemma not_has_scheme_slash: "x = [] \<or> hd x = CHR ''/'' \<or> hd x = CHR ''?'' \<Longrightarrow> \<not> has_scheme x"
  by (cases x) (auto simp add: has_scheme_def ascii_lowercase_def ascii_uppercase_def)

lemma delim_led_path:
  "P = [] \<or> hd P = CHR ''/'' \<Longrightarrow> delim_led (P @ optq q)"
  by (cases P) (auto simp add: delim_led_def optq_def netloc_delim_def)

lemma split_scheme_opts:
  assumes "norm_scheme sch" and "sch = [] \<Longrightarrow> \<not> has_scheme r"
  shows "split_scheme (opts sch @ r) = (sch, r)"
proof (cases "sch = []")
  case True
  with assms(2) show ?thesis by (simp add: opts_def split_scheme_none)
next
  case False
  with assms(1) have "valid_scheme sch" "lower sch = sch"
    by (simp_all add: norm_scheme_def)
  then have "split_scheme (sch @ CHR '':'' # r) = (sch, r)"
    by (rule split_scheme_build)
  with False show ?thesis by (simp add: opts_def)
qed

lemma split_clean_netloc_form:
  assumes "norm_scheme sch" and "delim_free nl"
    and "P = [] \<or> hd P = CHR ''/''"
    and "CHR ''?'' \<notin> set P" and "CHR ''#'' \<notin> set P" and "CHR ''#'' \<notin> set q"
  shows "split_clean (opts sch @ (''//'' @ nl @ P) @ optq q) = (sch, nl, P, q)"
proof -
  have "\<not> has_scheme ((''//'' @ nl @ P) @ optq q)"
    by (rule not_has_scheme_slash) simp
  with assms(1) have 1: "split_scheme (opts sch @ (''//'' @ nl @ P) @ optq q) =
      (sch, (''//'' @ nl @ P) @ optq q)"
    by (intro split_scheme_opts)
  have "split_netloc (''//'' @ nl @ (P @ optq q)) = (nl, P @ optq q)"
    using assms(2) delim_led_path [OF assms(3)] by (rule split_netloc_build)
  then have 2: "split_netloc ((''//'' @ nl @ P) @ optq q) = (nl, P @ optq q)"
    by simp
  show ?thesis
    unfolding split_clean_def 1 Let_def prod.case 2
    by (simp only: extract_build [OF assms(4,5,6)])
qed

lemma split_clean_path_form:
  assumes "norm_scheme sch" and "take 2 P \<noteq> ''//''"
    and "sch = [] \<Longrightarrow> \<not> has_scheme (P @ optq q)"
    and "CHR ''?'' \<notin> set P" and "CHR ''#'' \<notin> set P" and "CHR ''#'' \<notin> set q"
  shows "split_clean (opts sch @ P @ optq q) = (sch, [], P, q)"
proof -
  from assms(1,3) have 1: "split_scheme (opts sch @ P @ optq q) = (sch, P @ optq q)"
    by (rule split_scheme_opts)
  have 2: "split_netloc (P @ optq q) = ([], P @ optq q)"
    using take2_optq [OF assms(2)] by (rule split_netloc_none)
  show ?thesis
    unfolding split_clean_def 1 Let_def prod.case 2
    by (simp only: extract_build [OF assms(4,5,6)])
qed

subsection \<open>What the first split guarantees\<close>

lemma rejoin_hd:
  assumes "rejoin (params_split sch p) \<noteq> []"
  shows "p \<noteq> [] \<and> hd p = hd (rejoin (params_split sch p))"
proof (cases "rejoin (params_split sch p) = p")
  case True
  with assms show ?thesis by simp
next
  case False
  define P where "P = rejoin (params_split sch p)"
  from False rejoin_prefix [of sch p] have p: "p = P @ '';''"
    unfolding P_def by blast
  from assms have "P \<noteq> []" by (simp add: P_def)
  then have "p \<noteq> [] \<and> hd p = hd P" by (simp add: p)
  then show ?thesis unfolding P_def .
qed

lemma path_delim_led:
  assumes "delim_led (p @ t)" and "CHR ''?'' \<notin> set p" and "CHR ''#'' \<notin> set p"
  shows "rejoin (params_split sch p) = [] \<or> hd (rejoin (params_split sch p)) = CHR ''/''"
proof (cases "rejoin (params_split sch p) = []")
  case True
  then show ?thesis by simp
next
  case False
  from rejoin_hd [OF False] have p: "p \<noteq> []" and h: "hd p = hd (rejoin (params_split sch p))"
    by simp_all
  from p have "hd (p @ t) = hd p" by simp
  with assms(1) p have "netloc_delim (hd p)" by (simp add: delim_led_def)
  moreover have "hd p \<in> set p" using p by simp
  ultimately have "hd p = CHR ''/''"
    using assms(2,3) by (auto simp add: netloc_delim_def)
  with h show ?thesis by simp
qed

lemma split_clean_facts:
  assumes cl: "is_clean x" and sc: "split_clean x = (sch, nl, p, q)"
  defines "P \<equiv> rejoin (params_split sch p)"
  shows "norm_scheme sch" and "delim_free nl"
    and "CHR ''?'' \<notin> set P" and "CHR ''#'' \<notin> set P" and "CHR ''#'' \<notin> set q"
    and "is_safe sch" and "is_safe nl" and "is_safe P" and "is_safe q"
    and "nl \<noteq> [] \<Longrightarrow> P = [] \<or> hd P = CHR ''/''"
    and "sch = [] \<Longrightarrow> nl = [] \<Longrightarrow> \<not> has_scheme (P @ optq q)"
    and "sch = [] \<Longrightarrow> nl = [] \<Longrightarrow> P @ optq q = [] \<or> \<not> C0_CONTROL_OR_SPACE (hd (P @ optq q))"
proof -
  obtain s1 u2 where ss: "split_scheme x = (s1, u2)" by (cases "split_scheme x")
  obtain n1 u3 where sn: "split_netloc u2 = (n1, u3)" by (cases "split_netloc u2")
  from sc have e: "s1 = sch" "n1 = nl"
    and p: "p = before CHR ''?'' (before CHR ''#'' u3)"
    and q: "q = after CHR ''?'' (before CHR ''#'' u3)"
    by (simp_all add: split_clean_def ss sn Let_def)
  note sf = split_scheme_facts [OF ss [unfolded e]]
  note nf = split_netloc_facts [OF sn [unfolded e]]
  note ef = extract_facts [of u3, folded p q]
  show ns: "norm_scheme sch" by (rule sf(1))
  show df: "delim_free nl" by (rule nf(1))
  have Pp: "set P \<subseteq> set p" unfolding P_def by (rule set_rejoin)
  show qP: "CHR ''?'' \<notin> set P" using ef(1) Pp by blast
  show hP: "CHR ''#'' \<notin> set P" using ef(2) Pp by blast
  show "CHR ''#'' \<notin> set q" by (rule ef(3))
  from cl have sx: "is_safe x" by (simp add: is_clean_def)
  have u3u2: "set u3 \<subseteq> set u2" and nlu2: "set nl \<subseteq> set u2"
  proof -
    from nf(2) have "u2 = ''//'' @ nl @ u3 \<or> (nl = [] \<and> u3 = u2)" by blast
    then have "set u2 = set ''//'' \<union> set nl \<union> set u3 \<or> (nl = [] \<and> u3 = u2)"
      by (metis set_append sup_assoc)
    then show "set u3 \<subseteq> set u2" and "set nl \<subseteq> set u2" by auto
  qed
  have su2: "is_safe u2" using sf(2) sx by (rule is_safe_subset)
  show "is_safe sch"
    using ns scheme_char_plain(7)
    by (auto simp add: norm_scheme_def valid_scheme_def is_safe_def)
  show "is_safe nl" using nlu2 su2 by (rule is_safe_subset)
  have su3: "is_safe u3" using u3u2 su2 by (rule is_safe_subset)
  have sp: "is_safe p" using ef(4) su3 by (rule is_safe_subset)
  show "is_safe P" using Pp sp by (rule is_safe_subset)
  show "is_safe q" using ef(5) su3 by (rule is_safe_subset)
  from ef(6) obtain t where t: "u3 = p @ t" "t = [] \<or> hd t = CHR ''?'' \<or> hd t = CHR ''#''"
    by (elim exE conjE)
  have led: "P = [] \<or> hd P = CHR ''/''" if "delim_led u3"
    unfolding P_def using that [unfolded t(1)] ef(1,2) by (rule path_delim_led)
  show "P = [] \<or> hd P = CHR ''/''" if "nl \<noteq> []"
    using nf(2) that led by blast
  have tail: "\<exists>t'. p @ t = P @ t' \<and>
      (t' = [] \<or> hd t' = CHR ''?'' \<or> hd t' = CHR ''#'' \<or> hd t' = CHR '';'')"
  proof (cases "P = p")
    case True
    with t(2) show ?thesis by blast
  next
    case False
    with rejoin_prefix [of sch p] have "p = P @ '';''" by (simp add: P_def)
    then have "p @ t = P @ ('';'' @ t)" by (metis append.assoc)
    moreover have "hd ('';'' @ t) = CHR '';''" by simp
    ultimately show ?thesis by blast
  qed
  {
    assume s0: "sch = []" and n0: "nl = []"
    from sf(3,4) s0 have nh: "\<not> has_scheme x" and ux: "u2 = x" by simp_all
    have oq: "optq q = [] \<or> (hd (optq q) \<notin> set scheme_chars \<and> hd (optq q) \<noteq> CHR '':'')"
      by (simp add: optq_def scheme_chars_def)
    have "\<not> has_scheme (P @ optq q) \<and>
      (P @ optq q = [] \<or> \<not> C0_CONTROL_OR_SPACE (hd (P @ optq q)))"
    proof (cases "take 2 u2 = ''//''")
      case True
      with nf(2) have "delim_led u3" by blast
      from led [OF this] have l: "P = [] \<or> hd P = CHR ''/''" .
      have "P @ optq q = [] \<or> hd (P @ optq q) = CHR ''/'' \<or> hd (P @ optq q) = CHR ''?''"
        using l by (cases P) (auto simp add: optq_def)
      then show ?thesis
        using not_has_scheme_slash [of "P @ optq q"]
        by (auto simp add: C0_CONTROL_OR_SPACE_def)
    next
      case False
      with nf(2) have "u3 = u2" by blast
      with ux t(1) have xp: "x = p @ t" by simp
      from tail obtain t' where t': "p @ t = P @ t'"
        "t' = [] \<or> hd t' = CHR ''?'' \<or> hd t' = CHR ''#'' \<or> hd t' = CHR '';''"
        by (elim exE conjE)
      have "t' = [] \<or> (hd t' \<notin> set scheme_chars \<and> hd t' \<noteq> CHR '':'')"
        using t'(2) by (auto simp add: scheme_chars_def)
      then have "has_scheme (P @ t') = has_scheme P" by (rule has_scheme_append)
      moreover have "has_scheme (P @ optq q) = has_scheme P"
        using oq by (rule has_scheme_append)
      ultimately have a: "\<not> has_scheme (P @ optq q)"
        using nh xp t'(1) by simp
      have b: "P @ optq q = [] \<or> \<not> C0_CONTROL_OR_SPACE (hd (P @ optq q))"
      proof (cases "P = []")
        case True
        then show ?thesis by (simp add: optq_def C0_CONTROL_OR_SPACE_def)
      next
        case False
        then have "hd (P @ optq q) = hd (P @ t')" by simp
        also have "\<dots> = hd x" using xp t'(1) by simp
        finally have "hd (P @ optq q) = hd x" .
        moreover have "x \<noteq> []" using xp t'(1) False by simp
        ultimately show ?thesis using cl by (simp add: is_clean_def)
      qed
      from a b show ?thesis by simp
    qed
  }
  then show "sch = [] \<Longrightarrow> nl = [] \<Longrightarrow> \<not> has_scheme (P @ optq q)"
    and "sch = [] \<Longrightarrow> nl = [] \<Longrightarrow> P @ optq q = [] \<or> \<not> C0_CONTROL_OR_SPACE (hd (P @ optq q))"
    by simp_all
qed

subsection \<open>Normalising twice\<close>

lemma build_form:
  "build w (sch, nl, p, q) = urlunsplit w sch nl (rejoin (params_split sch p)) q []"
  by (simp add: build_def)

lemma is_safe_opts: "is_safe sch \<Longrightarrow> is_safe (opts sch)"
  by (simp add: opts_def UNSAFE_URL_BYTES_TO_REMOVE_def)

lemma is_safe_optq: "is_safe q \<Longrightarrow> is_safe (optq q)"
  by (simp add: optq_def UNSAFE_URL_BYTES_TO_REMOVE_def)

lemma hd_opts:
  assumes "norm_scheme sch" and "sch \<noteq> []"
  shows "opts sch @ r \<noteq> [] \<and> \<not> C0_CONTROL_OR_SPACE (hd (opts sch @ r))"
proof -
  from assms have "hd sch \<in> set scheme_chars"
    by (auto simp add: norm_scheme_def valid_scheme_def)
  then have "\<not> C0_CONTROL_OR_SPACE (hd sch)" by (rule scheme_char_plain(6))
  with assms(2) show ?thesis by (simp add: opts_def)
qed

lemma reparse:
  assumes cl: "is_clean x" and sc: "split_clean x = (sch, nl, p, q)"
    and ag: "legacy_urlunsplit w \<longrightarrow> nl \<noteq> [] \<or> take 2 (rejoin (params_split sch p)) \<noteq> ''//''"
  shows "is_clean (build w (sch, nl, p, q))"
    and "\<exists>p'. split_clean (build w (sch, nl, p, q)) = (sch, nl, p', q) \<and>
           build w (sch, nl, p', q) = build w (sch, nl, p, q)"
proof -
  define P where "P = rejoin (params_split sch p)"
  note f = split_clean_facts [OF cl sc, folded P_def]
  have agP: "legacy_urlunsplit w \<longrightarrow> nl \<noteq> [] \<or> take 2 P \<noteq> ''//''"
    using ag by (simp add: P_def)
  define cond where
    "cond \<longleftrightarrow> nl \<noteq> [] \<or> (sch \<noteq> [] \<and> sch \<in> set (uses_netloc w)) \<or> take 2 P = ''//''"
  define P' where "P' = (if P \<noteq> [] \<and> take 1 P \<noteq> ''/'' then CHR ''/'' # P else P)"
  have pr: "rejoin (params_split sch P) = P"
    unfolding P_def by (simp only: params_split_rejoin)
  have pr': "rejoin (params_split sch P') = P'"
    unfolding P'_def using pr by (simp add: rejoin_slash_Cons)
  have led': "P' = [] \<or> hd P' = CHR ''/''"
    unfolding P'_def by (cases P) simp_all
  have qP': "CHR ''?'' \<notin> set P'" and hP': "CHR ''#'' \<notin> set P'"
    unfolding P'_def using f(3,4) by simp_all
  have sP': "is_safe P'"
    unfolding P'_def using f(8) by (simp add: UNSAFE_URL_BYTES_TO_REMOVE_def)
  have t1: "P' \<noteq> [] \<Longrightarrow> take 1 P' = ''/''"
    using led' take1_slash by blast
  have agP': "legacy_urlunsplit w \<longrightarrow> nl \<noteq> [] \<or> take 2 P' \<noteq> ''//''"
    using agP unfolding P'_def by (cases P) auto
  have "is_clean (build w (sch, nl, p, q)) \<and>
    (\<exists>p'. split_clean (build w (sch, nl, p, q)) = (sch, nl, p', q) \<and>
           build w (sch, nl, p', q) = build w (sch, nl, p, q))"
  proof (cases cond)
    case True
    have v: "build w (sch, nl, p, q) = opts sch @ (''//'' @ nl @ P') @ optq q"
      unfolding build_form P_def [symmetric] urlunsplit_form [OF agP]
      using True by (simp add: cond_def P'_def)
    have cond': "nl \<noteq> [] \<or> (sch \<noteq> [] \<and> sch \<in> set (uses_netloc w)) \<or> take 2 P' = ''//''"
    proof (cases "take 2 P = ''//''")
      case True
      then have "P \<noteq> [] \<and> take 1 P = ''/''" by (cases P) auto
      then have "P' = P" by (simp add: P'_def)
      with True show ?thesis by simp
    next
      case False
      with \<open>cond\<close> show ?thesis by (simp add: cond_def)
    qed
    have s: "split_clean (opts sch @ (''//'' @ nl @ P') @ optq q) = (sch, nl, P', q)"
      using f(1,2) led' qP' hP' f(5) by (rule split_clean_netloc_form)
    have "build w (sch, nl, P', q) = opts sch @ (''//'' @ nl @ P') @ optq q"
      unfolding build_form pr' urlunsplit_form [OF agP']
      using cond' t1 by auto
    with s v have e: "\<exists>p'. split_clean (build w (sch, nl, p, q)) = (sch, nl, p', q) \<and>
           build w (sch, nl, p', q) = build w (sch, nl, p, q)"
      by (intro exI [of _ P']) simp
    have safe: "is_safe (opts sch @ (''//'' @ nl @ P') @ optq q)"
      using f(6,7,9) sP' is_safe_opts is_safe_optq
      by (simp add: UNSAFE_URL_BYTES_TO_REMOVE_def)
    have "opts sch @ (''//'' @ nl @ P') @ optq q \<noteq> [] \<and>
      \<not> C0_CONTROL_OR_SPACE (hd (opts sch @ (''//'' @ nl @ P') @ optq q))"
    proof (cases "sch = []")
      case True
      then show ?thesis by (simp add: opts_def C0_CONTROL_OR_SPACE_def)
    next
      case False
      with f(1) show ?thesis by (rule hd_opts)
    qed
    with safe have "is_clean (build w (sch, nl, p, q))"
      unfolding v is_clean_def by blast
    with e show ?thesis by (intro conjI)
  next
    case False
    then have n0: "nl = []" and ns: "\<not> (sch \<noteq> [] \<and> sch \<in> set (uses_netloc w))"
      and t2: "take 2 P \<noteq> ''//''"
      by (simp_all add: cond_def)
    have v: "build w (sch, nl, p, q) = opts sch @ P @ optq q"
      unfolding build_form P_def [symmetric] urlunsplit_form [OF agP]
      using n0 ns t2 by simp
    have s: "split_clean (opts sch @ P @ optq q) = (sch, [], P, q)"
      using f(1) t2 f(11) [OF _ n0] f(3,4,5) by (rule split_clean_path_form)
    have "build w (sch, nl, P, q) = opts sch @ P @ optq q"
      unfolding build_form pr urlunsplit_form [OF agP]
      using n0 ns t2 by simp
    with s v n0 have e: "\<exists>p'. split_clean (build w (sch, nl, p, q)) = (sch, nl, p', q) \<and>
           build w (sch, nl, p', q) = build w (sch, nl, p, q)"
      by (intro exI [of _ P]) simp
    have safe: "is_safe (opts sch @ P @ optq q)"
      using f(6,8,9) is_safe_opts is_safe_optq by simp
    have "opts sch @ P @ optq q = [] \<or> \<not> C0_CONTROL_OR_SPACE (hd (opts sch @ P @ optq q))"
    proof (cases "sch = []")
      case True
      with f(12) [OF True n0] show ?thesis by (simp add: opts_def)
    next
      case False
      with f(1) have "opts sch @ (P @ optq q) \<noteq> [] \<and>
        \<not> C0_CONTROL_OR_SPACE (hd (opts sch @ (P @ optq q)))"
        by (rule hd_opts)
      then show ?thesis by simp
    qed
    with safe have "is_clean (build w (sch, nl, p, q))"
      unfolding v is_clean_def by blast
    with e show ?thesis by (intro conjI)
  qed
  then show "is_clean (build w (sch, nl, p, q))"
    and "\<exists>p'. split_clean (build w (sch, nl, p, q)) = (sch, nl, p', q) \<and>
           build w (sch, nl, p', q) = build w (sch, nl, p, q)"
    by simp_all
qed

lemma normalise_Some:
  "normalise w u = Some v \<longleftrightarrow>
     netloc_ok w (fst (snd (split_clean (cleanurl u)))) \<and> v = build w (split_clean (cleanurl u))"
  by (auto simp add: normalise_clean)

lemma take2_rejoin: "(take 2 (rejoin (a, b)) = ''//'') = (take 2 a = ''//'')"
proof (cases a)
  case Nil
  then show ?thesis by (simp add: rejoin_def)
next
  case (Cons c a1)
  then show ?thesis by (cases a1) (auto simp add: rejoin_def)
qed

lemma urlparse_clean:
  assumes "urlparse w u [] = Some r" and "split_clean (cleanurl u) = (sch, nl, p, q)"
  shows "scheme r = sch" and "netloc r = nl" and "(path r, params r) = params_split sch p"
    and "query r = q" and "netloc_ok w nl"
  using assms
  by (auto simp add: urlparse_def urlsplit_clean params_split_def Let_def
      split: if_splits prod.splits)

lemma normalise_reparse:
  assumes n: "normalise w u = Some v" and r: "urlparse w u [] = Some r"
    and ag: "legacy_urlunsplit w \<longrightarrow> netloc r \<noteq> [] \<or> take 2 (path r) \<noteq> ''//''"
  shows "normalise w v = Some v"
    and "map_option netloc (urlparse w v []) = Some (netloc r)"
    and "urlparse w v [] \<noteq> None"
proof -
  obtain sch nl p q where sc: "split_clean (cleanurl u) = (sch, nl, p, q)"
    by (cases "split_clean (cleanurl u)")
  note c = urlparse_clean [OF r sc]
  from n have ok: "netloc_ok w nl" and v: "v = build w (sch, nl, p, q)"
    by (simp_all add: normalise_Some sc)
  have "take 2 (rejoin (params_split sch p)) = ''//'' \<longleftrightarrow> take 2 (path r) = ''//''"
    unfolding c(3) [symmetric] by (rule take2_rejoin)
  with ag c(2) have ag': "legacy_urlunsplit w \<longrightarrow>
      nl \<noteq> [] \<or> take 2 (rejoin (params_split sch p)) \<noteq> ''//''"
    by simp
  note rp = reparse [OF is_clean_cleanurl sc ag', folded v]
  from rp(1) have cv: "cleanurl v = v" by (rule cleanurl_is_clean)
  from rp(2) obtain p' where s': "split_clean v = (sch, nl, p', q)"
    and b': "build w (sch, nl, p', q) = v"
    by (elim exE conjE)
  show "normalise w v = Some v"
    by (simp add: normalise_clean cv s' ok b')
  show m: "map_option netloc (urlparse w v []) = Some (netloc r)"
    by (simp add: urlparse_netloc cv s' ok c(2))
  then show "urlparse w v [] \<noteq> None" by auto
qed

subsection \<open>Fragments\<close>

lemma dropWhile_C0_hash:
  "dropWhile C0_CONTROL_OR_SPACE (x @ CHR ''#'' # f) =
   dropWhile C0_CONTROL_OR_SPACE x @ CHR ''#'' # f"
  by (induction x) (simp_all add: C0_CONTROL_OR_SPACE_def)

lemma cleanurl_hash:
  "cleanurl (x @ CHR ''#'' # f) = cleanurl x @ CHR ''#'' # remove_unsafe f"
  by (simp add: cleanurl_def dropWhile_C0_hash remove_unsafe_def UNSAFE_URL_BYTES_TO_REMOVE_def)

lemma set_cleanurl: "set (cleanurl x) \<subseteq> set x"
proof
  fix c assume "c \<in> set (cleanurl x)"
  then have "c \<in> set (dropWhile C0_CONTROL_OR_SPACE x)"
    by (simp add: cleanurl_def remove_unsafe_def)
  then show "c \<in> set x" by (rule set_dropWhileD)
qed

lemma split_scheme_hash:
  assumes "CHR ''#'' \<notin> set y"
  shows "split_scheme (y @ CHR ''#'' # g) =
    (fst (split_scheme y), snd (split_scheme y) @ CHR ''#'' # g)"
proof -
  have hs: "has_scheme (y @ CHR ''#'' # g) = has_scheme y"
    by (rule has_scheme_append) (simp add: scheme_chars_def)
  show ?thesis
  proof (cases "has_scheme y")
    case True
    then have c: "CHR '':'' \<in> set y" by (simp add: has_scheme_def)
    from True hs show ?thesis
      by (simp add: split_scheme_def before_prefix [OF c] after_prefix [OF c])
  next
    case False
    with hs show ?thesis by (simp add: split_scheme_def)
  qed
qed

lemma take2_hash: "(take 2 (u @ CHR ''#'' # g) = ''//'') = (take 2 u = ''//'')"
proof (cases u)
  case Nil
  then show ?thesis by simp
next
  case (Cons a u1)
  then show ?thesis by (cases u1) auto
qed

lemma split_netloc_hash:
  "split_netloc (u @ CHR ''#'' # g) =
    (fst (split_netloc u), snd (split_netloc u) @ CHR ''#'' # g)"
proof -
  obtain nl r where sn: "split_netloc u = (nl, r)" by (cases "split_netloc u")
  note nf = split_netloc_facts [OF sn]
  show ?thesis
  proof (cases "take 2 u = ''//''")
    case True
    with nf(2) have u: "u = ''//'' @ nl @ r" and led: "delim_led r" by blast+
    have "delim_led (r @ CHR ''#'' # g)"
      using led by (cases r) (simp_all add: delim_led_def netloc_delim_def)
    with nf(1) have b: "split_netloc (''//'' @ nl @ (r @ CHR ''#'' # g)) = (nl, r @ CHR ''#'' # g)"
      by (rule split_netloc_build)
    have e: "u @ CHR ''#'' # g = ''//'' @ nl @ (r @ CHR ''#'' # g)"
      by (subst u) simp
    have "split_netloc (u @ CHR ''#'' # g) = (nl, r @ CHR ''#'' # g)"
      unfolding e by (rule b)
    then show ?thesis by (simp add: sn)
  next
    case False
    then have "take 2 (u @ CHR ''#'' # g) \<noteq> ''//''" unfolding take2_hash .
    then have "split_netloc (u @ CHR ''#'' # g) = ([], u @ CHR ''#'' # g)"
      by (rule split_netloc_none)
    moreover from False have "split_netloc u = ([], u)" by (rule split_netloc_none)
    ultimately show ?thesis by simp
  qed
qed

lemma set_split_netloc: "set (snd (split_netloc u)) \<subseteq> set u"
proof -
  obtain nl r where sn: "split_netloc u = (nl, r)" by (cases "split_netloc u")
  from split_netloc_facts(2) [OF sn] have "u = ''//'' @ nl @ r \<or> r = u" by blast
  then have "set u = set ''//'' \<union> set nl \<union> set r \<or> r = u"
    by (metis set_append sup_assoc)
  then show ?thesis by (auto simp add: sn)
qed

lemma split_clean_hash:
  assumes "CHR ''#'' \<notin> set y"
  shows "split_clean (y @ CHR ''#'' # g) = split_clean y"
proof -
  obtain sch u2 where ss: "split_scheme y = (sch, u2)" by (cases "split_scheme y")
  obtain nl u3 where sn: "split_netloc u2 = (nl, u3)" by (cases "split_netloc u2")
  have "set u2 \<subseteq> set y" using ss by (rule split_scheme_facts(2))
  moreover have "set u3 \<subseteq> set u2" using set_split_netloc [of u2] by (simp add: sn)
  ultimately have h: "CHR ''#'' \<notin> set u3" using assms by blast
  have 1: "split_scheme (y @ CHR ''#'' # g) = (sch, u2 @ CHR ''#'' # g)"
    by (simp add: split_scheme_hash [OF assms] ss)
  have 2: "split_netloc (u2 @ CHR ''#'' # g) = (nl, u3 @ CHR ''#'' # g)"
    by (simp add: split_netloc_hash sn)
  show ?thesis
    by (simp add: split_clean_def 1 2 ss sn h)
qed

lemma normalise_fragment:
  assumes "CHR ''#'' \<notin> set x"
  shows "normalise w (x @ CHR ''#'' # f) = normalise w x"
proof -
  have "CHR ''#'' \<notin> set (cleanurl x)" using assms set_cleanurl by blast
  then have "split_clean (cleanurl x @ CHR ''#'' # remove_unsafe f) = split_clean (cleanurl x)"
    by (rule split_clean_hash)
  then show ?thesis
    by (simp add: normalise_clean cleanurl_hash)
qed

subsection \<open>When \<open>normalise\<close> returns\<close>

lemma set_split_clean_netloc:
  assumes "split_clean x = (sch, nl, p, q)"
  shows "set nl \<subseteq> set x"
proof -
  obtain s1 u2 where ss: "split_scheme x = (s1, u2)" by (cases "split_scheme x")
  obtain n1 u3 where sn: "split_netloc u2 = (n1, u3)" by (cases "split_netloc u2")
  from assms have e: "n1 = nl"
    by (simp add: split_clean_def ss sn Let_def)
  from split_netloc_facts(2) [OF sn] have "u2 = ''//'' @ n1 @ u3 \<or> n1 = []" by blast
  then have "set u2 = set ''//'' \<union> set n1 \<union> set u3 \<or> n1 = []"
    by (metis set_append sup_assoc)
  then have "set n1 \<subseteq> set u2" by auto
  with split_scheme_facts(2) [OF ss] e show ?thesis by blast
qed

lemma normalise_returns:
  assumes a: "isascii u" and l: "CHR ''['' \<notin> set u" and r: "CHR '']'' \<notin> set u"
  shows "\<exists>v. normalise w u = Some v"
proof -
  obtain sch nl p q where sc: "split_clean (cleanurl u) = (sch, nl, p, q)"
    by (cases "split_clean (cleanurl u)")
  have "set nl \<subseteq> set (cleanurl u)" using sc by (rule set_split_clean_netloc)
  with set_cleanurl have s: "set nl \<subseteq> set u" by blast
  with a have "isascii nl" by (auto simp add: isascii_def list_all_iff)
  with s l r have "netloc_ok w nl"
    by (auto simp add: netloc_ok_def checknetloc_def)
  then show ?thesis by (simp add: normalise_clean sc)
qed

subsection \<open>The algebra of \<open>normalise\<close>\<close>

text \<open>
  C8, as the claim states it, fails on the releases of CPython with the older rule of
  \<open>urlunsplit\<close>: there \<open>normalise\<close> maps \<open>////\<close> to \<open>//\<close> and \<open>//\<close> to the empty string,
  so normalising twice differs from normalising once. On every release \<open>normalise\<close> raises
  \<open>ValueError\<close> on some strings, such as \<open>http://[\<close>, so that it has no value to compare.
\<close>

theorem C8_counterexample:
  "normalise legacy_site ''////'' = Some ''//'' \<and>
   normalise legacy_site ''//'' = Some '''' \<and>
   Option.bind (normalise legacy_site ''////'') (normalise legacy_site) \<noteq>
     normalise legacy_site ''////'' \<and>
   normalise legacy_site ''http://['' = None"
  by code_simp

text \<open>
  C8 (amended): \<open>normalise\<close> raises exactly when \<open>urlparse\<close> does, and it returns a value
  for every ASCII string without square brackets. Whenever it returns a value for a URL
  that parses with a network location, or with a path that does not begin with \<open>//\<close>,
  \<open>normalise\<close> of that value returns the same value; on the releases with the later rule
  of \<open>urlunsplit\<close> this holds for every URL on which it returns. On every release, a URL
  without fragment, the same URL followed by \<open>#\<close> and any fragment, and two URLs that
  differ only in what follows the first \<open>#\<close> all normalise to the same value (or all
  raise).
\<close>

theorem C8_normalise_algebra:
  "(normalise w u = None \<longleftrightarrow> urlparse w u [] = None) \<and>
   (isascii u \<and> CHR ''['' \<notin> set u \<and> CHR '']'' \<notin> set u \<longrightarrow> (\<exists>v. normalise w u = Some v)) \<and>
   (normalise w u = Some v \<and> urlparse w u [] = Some r \<and>
    (legacy_urlunsplit w \<longrightarrow> netloc r \<noteq> [] \<or> take 2 (path r) \<noteq> ''//'') \<longrightarrow>
      normalise w v = Some v) \<and>
   (normalise w u = Some v \<and> \<not> legacy_urlunsplit w \<longrightarrow> normalise w v = Some v) \<and>
   (CHR ''#'' \<notin> set x \<longrightarrow>
      normalise w (x @ CHR ''#'' # f) = normalise w x \<and>
      normalise w (x @ CHR ''#'' # f) = normalise w (x @ CHR ''#'' # f'))"
proof (intro conjI impI)
  show "normalise w u = None \<longleftrightarrow> urlparse w u [] = None"
    by (simp add: normalise_def split: option.splits)
next
  assume "isascii u \<and> CHR ''['' \<notin> set u \<and> CHR '']'' \<notin> set u"
  then show "\<exists>v. normalise w u = Some v" by (simp add: normalise_returns)
next
  assume "normalise w u = Some v \<and> urlparse w u [] = Some r \<and>
    (legacy_urlunsplit w \<longrightarrow> netloc r \<noteq> [] \<or> take 2 (path r) \<noteq> ''//'')"
  then show "normalise w v = Some v"
    using normalise_reparse(1) by blast
next
  assume a: "normalise w u = Some v \<and> \<not> legacy_urlunsplit w"
  then obtain r where "urlparse w u [] = Some r"
    by (auto simp add: normalise_def split: option.splits)
  with a show "normalise w v = Some v"
    using normalise_reparse(1) [of w u v r] by simp
next
  assume h: "CHR ''#'' \<notin> set x"
  then show "normalise w (x @ CHR ''#'' # f) = normalise w x"
    by (rule normalise_fragment)
  from h show "normalise w (x @ CHR ''#'' # f) = normalise w (x @ CHR ''#'' # f')"
    by (simp add: normalise_fragment)
qed

theorem C8_normalise_algebra_witness:
  "isascii ''HTTP://Site.Test/a;p?q#frag'' \<and>
   normalise mixed_site ''HTTP://Site.Test/a;p?q#frag'' = Some ''http://Site.Test/a;p?q'' \<and>
   normalise mixed_site ''http://Site.Test/a;p?q'' = Some ''http://Site.Test/a;p?q'' \<and>
   map_option netloc (urlparse legacy_site ''HTTP://Site.Test//a;p?q#frag'' []) = Some ''Site.Test'' \<and>
   normalise legacy_site ''HTTP://Site.Test//a;p?q#frag'' = Some ''http://Site.Test//a;p?q'' \<and>
   normalise legacy_site ''http://Site.Test//a;p?q'' = Some ''http://Site.Test//a;p?q'' \<and>
   CHR ''#'' \<notin> set ''http://site.test/a'' \<and>
   normalise mixed_site (''http://site.test/a'' @ CHR ''#'' # ''top'') =
     normalise mixed_site ''http://site.test/a''"
proof -
  have a: "isascii ''HTTP://Site.Test/a;p?q#frag''"
    by (simp add: isascii_def)
  have b: "CHR ''['' \<notin> set ''HTTP://Site.Test/a;p?q#frag'' \<and>
      CHR '']'' \<notin> set ''HTTP://Site.Test/a;p?q#frag''"
    by simp
  have m: "\<not> legacy_urlunsplit mixed_site"
    by (simp add: mixed_site_def table_world_def)
  from C8_normalise_algebra [of mixed_site "''HTTP://Site.Test/a;p?q#frag''"] a b
  obtain v where v: "normalise mixed_site ''HTTP://Site.Test/a;p?q#frag'' = Some v"
    by blast
  have n: "normalise mixed_site ''HTTP://Site.Test/a;p?q#frag'' = Some ''http://Site.Test/a;p?q''"
    by code_simp
  from C8_normalise_algebra [of mixed_site "''HTTP://Site.Test/a;p?q#frag''"
      "''http://Site.Test/a;p?q''"] n m
  have 1: "normalise mixed_site ''http://Site.Test/a;p?q'' = Some ''http://Site.Test/a;p?q''"
    by blast
  define r where "r = \<lparr>scheme = ''http'', netloc = ''Site.Test'', path = ''//a'', params = ''p'',
    query = ''q'', fragment = ''frag''\<rparr>"
  have p: "urlparse legacy_site ''HTTP://Site.Test//a;p?q#frag'' [] = Some r"
    unfolding r_def by code_simp
  have g: "legacy_urlunsplit legacy_site \<longrightarrow> netloc r \<noteq> [] \<or> take 2 (path r) \<noteq> ''//''"
    by (simp add: r_def)
  have n2: "normalise legacy_site ''HTTP://Site.Test//a;p?q#frag'' = Some ''http://Site.Test//a;p?q''"
    by code_simp
  from C8_normalise_algebra [of legacy_site "''HTTP://Site.Test//a;p?q#frag''"
      "''http://Site.Test//a;p?q''" r] n2 p g
  have 2: "normalise legacy_site ''http://Site.Test//a;p?q'' = Some ''http://Site.Test//a;p?q''"
    by blast
  have h: "CHR ''#'' \<notin> set ''http://site.test/a''"
    by simp
  from C8_normalise_algebra [of mixed_site _ _ _ "''http://site.test/a''" "''top''"] h
  have 3: "normalise mixed_site (''http://site.test/a'' @ CHR ''#'' # ''top'') =
     normalise mixed_site ''http://site.test/a''"
    by blast
  from p have 4: "map_option netloc (urlparse legacy_site ''HTTP://Site.Test//a;p?q#frag'' []) = Some ''Site.Test''"
    by (simp add: r_def)
  from a n 1 4 n2 2 h 3 show ?thesis by blast
qed

section \<open>Scope of the crawl\<close>

lemma crawl_body_scope:
  assumes "crawl_body w start inc s = Some s'"
  shows "visited s' \<subseteq> visited s \<union> {l. inc \<or> in_scope w start l}"
    and "\<not> in_scope w start (hd (queue s)) \<Longrightarrow>
           queue s' = tl (queue s) \<and> visited s' = visited s"
proof -
  let ?u = "hd (queue s)"
  from assms obtain code html where f: "fetch w (length (results s)) ?u = Some (code, html)"
    by (cases "fetch w (length (results s)) ?u") (auto simp add: crawl_body_def Let_def)
  let ?rs = "results s @ [\<lparr>url = ?u, status_code = code, label = crawl_label code\<rparr>]"
  consider (leaf) "s' = \<lparr>queue = tl (queue s), visited = visited s, results = ?rs\<rparr>"
    | (expand) links q2 v2 where "same_domain w ?u start = Some True"
        "discover w start inc links (tl (queue s), visited s) = Some (q2, v2)"
        "s' = \<lparr>queue = q2, visited = v2, results = ?rs\<rparr>"
    using assms f
    by (auto simp add: crawl_body_def Let_def split: if_splits option.splits)
  then show "visited s' \<subseteq> visited s \<union> {l. inc \<or> in_scope w start l}"
  proof cases
    case leaf
    then show ?thesis by simp
  next
    case expand
    from discover_accepts [OF expand(2)] expand(3) show ?thesis by auto
  qed
  show "queue s' = tl (queue s) \<and> visited s' = visited s" if "\<not> in_scope w start ?u"
  proof -
    consider (leaf) "s' = \<lparr>queue = tl (queue s), visited = visited s, results = ?rs\<rparr>"
      | (expand) "same_domain w ?u start = Some True"
      using assms f
      by (auto simp add: crawl_body_def Let_def split: if_splits option.splits)
    then show ?thesis
    proof cases
      case leaf
      then show ?thesis by simp
    next
      case expand
      with that show ?thesis by (simp add: in_scope_def)
    qed
  qed
qed

lemma crawl_loop_scope:
  "crawl_loop w start max_pages False s = Some t \<Longrightarrow>
   \<forall>u \<in> visited s. u = start \<or> in_scope w start u \<Longrightarrow>
   \<forall>u \<in> visited t. u = start \<or> in_scope w start u"
proof (induction w start max_pages "False" s rule: crawl_loop.induct)
  case (1 w start max_pages s)
  show ?case
  proof (cases "queue s \<noteq> [] \<and> int (length (results s)) < max_pages")
    case True
    with "1.prems"(1) obtain s' where
      b: "crawl_body w start False s = Some s'" and l: "crawl_loop w start max_pages False s' = Some t"
      by (subst (asm) crawl_loop.simps) (auto split: option.splits)
    from crawl_body_scope(1) [OF b] "1.prems"(2)
    have "\<forall>u \<in> visited s'. u = start \<or> in_scope w start u"
      by auto
    from "1.hyps" [OF True b l this] show ?thesis .
  next
    case False
    with "1.prems" show ?thesis by (subst (asm) crawl_loop.simps) auto
  qed
qed

lemma crawl_body_expand:
  assumes b: "crawl_body w start inc s = Some s'"
    and g: "session_get w (length (results s)) (hd (queue s)) = Response code ct body final"
    and h: "contains (case ct of None \<Rightarrow> [] | Some c \<Rightarrow> c) ''html''" and n: "body \<noteq> []"
    and d: "same_domain w (hd (queue s)) start = Some True"
  shows "\<exists>links. get_links w body (hd (queue s)) = Some links \<and>
           visited s' = visited s \<union> {l \<in> set links. inc \<or> same_domain w l start = Some True}"
proof -
  let ?u = "hd (queue s)"
  from g h have f: "fetch w (length (results s)) ?u = Some (code, body)"
    by (simp add: fetch_def)
  from b f n d obtain links where l: "get_links w body ?u = Some links"
    by (cases "get_links w body ?u") (simp_all add: crawl_body_def Let_def)
  from b f n d l obtain q2 v2 where
    dc: "discover w start inc links (tl (queue s), visited s) = Some (q2, v2)"
    and s': "visited s' = v2"
    by (cases "discover w start inc links (tl (queue s), visited s)")
      (auto simp add: crawl_body_def Let_def)
  from discover_accepts [OF dc]
  have "v2 = visited s \<union> {l \<in> set links. inc \<or> in_scope w start l}"
    by blast
  with l s' show ?thesis by (simp add: in_scope_def)
qed

lemma crawl_results_scope:
  assumes n: "normalise w start_url = Some start"
    and c: "crawl w start_url max_pages False = Some rs" and r: "r \<in> set rs"
  shows "url r = start \<or> same_domain w (url r) start = Some True"
proof -
  from n c obtain t where l: "crawl_loop w start max_pages False (initial_state start) = Some t"
    and rs: "rs = results t"
    by (auto simp add: crawl_def)
  have "\<forall>u \<in> visited (initial_state start). u = start \<or> in_scope w start u"
    by (simp add: initial_state_def)
  with l have v: "\<forall>u \<in> visited t. u = start \<or> in_scope w start u" by (rule crawl_loop_scope)
  from l have "crawl_inv t" using crawl_loop_inv crawl_inv_initial by blast
  then have "url r \<in> visited t" using r rs by (auto simp add: crawl_inv_def)
  with v show ?thesis by (auto simp add: in_scope_def)
qed

lemma same_domain_netloc:
  assumes "same_domain w u b = Some True"
  shows "map_option netloc (urlparse w u []) = map_option netloc (urlparse w b [])"
  using assms by (auto simp add: same_domain_def split: option.splits)

text \<open>
  C4, as the claim states it, fails in both halves. On a release with the older rule of
  \<open>urlunsplit\<close> the seed \<open>http:////x\<close>, whose network location is empty, is normalised to
  \<open>http://x\<close>, and that URL, of the network location \<open>x\<close>, is requested and recorded; the
  seed \<open>http:////[x\<close> is normalised to a URL that \<open>urlparse\<close> rejects, which is recorded
  as well. And on every release the scope test reads the URL that was requested, not the
  URL of the page that answered: on \<open>redirect_site\<close> the body comes from another host, and
  its link is extracted, resolved against the requested URL, enqueued and fetched.
\<close>

theorem C4_counterexample:
  "map_option netloc (urlparse legacy_site ''http:////x'' []) = Some '''' \<and>
   map_option (map url) (crawl legacy_site ''http:////x'' 10 False) = Some [''http://x''] \<and>
   map_option netloc (urlparse legacy_site ''http://x'' []) = Some ''x'' \<and>
   map_option (map url) (crawl legacy_site ''http:////[x'' 10 False) = Some [''http://[x''] \<and>
   urlparse legacy_site ''http://[x'' [] = None \<and>
   session_get redirect_site 0 ''http://site.test/'' =
     Response 200 (Some ''text/html'') ''<a href=/z>Z</a>'' ''http://other.test/landing'' \<and>
   same_domain redirect_site ''http://other.test/landing'' ''http://site.test/'' = Some False \<and>
   map_option (map url) (crawl redirect_site ''http://site.test/'' 10 False) =
     Some [''http://site.test/'', ''http://site.test/z'']"
  by code_simp

text \<open>
  C4 (amended): without \<open>include_external\<close>, every URL in the list that \<open>crawl\<close> returns
  is the normalised seed or a URL for which \<open>same_domain\<close> with the normalised seed holds.
  When the seed as given parses with a network location, or with a path that does not
  begin with \<open>//\<close>, or when the release has the later rule of \<open>urlunsplit\<close>, every such URL
  parses and has the \<open>netloc\<close> of the seed as given. With or without \<open>include_external\<close>, a
  pass of the loop for a requested URL that is not in scope records the URL and leaves the
  rest of the queue and \<open>visited\<close> as they are: no link of that response is extracted or
  enqueued. A pass for a requested URL that is in scope and is answered with an HTML body
  extracts the links of that body, resolved against the requested URL, and enters into
  \<open>visited\<close> those that pass the filter, whatever URL the body came from.
\<close>

theorem C4_scope:
  "(normalise w start_url = Some start \<and> crawl w start_url max_pages False = Some rs \<longrightarrow>
      (\<forall>r \<in> set rs. url r = start \<or> same_domain w (url r) start = Some True)) \<and>
   (normalise w start_url = Some start \<and> crawl w start_url max_pages False = Some rs \<and>
    urlparse w start_url [] = Some p \<and>
    (legacy_urlunsplit w \<longrightarrow> netloc p \<noteq> [] \<or> take 2 (path p) \<noteq> ''//'') \<longrightarrow>
      (\<forall>r \<in> set rs. map_option netloc (urlparse w (url r) []) = Some (netloc p))) \<and>
   (crawl_body w start inc s = Some s' \<and> same_domain w (hd (queue s)) start \<noteq> Some True \<longrightarrow>
      queue s' = tl (queue s) \<and> visited s' = visited s \<and>
      (\<exists>r. results s' = results s @ [r] \<and> url r = hd (queue s))) \<and>
   (crawl_body w start inc s = Some s' \<and>
    session_get w (length (results s)) (hd (queue s)) = Response code ct body final \<and>
    contains (case ct of None \<Rightarrow> [] | Some c \<Rightarrow> c) ''html'' \<and> body \<noteq> [] \<and>
    same_domain w (hd (queue s)) start = Some True \<longrightarrow>
      (\<exists>links. get_links w body (hd (queue s)) = Some links \<and>
         visited s' = visited s \<union> {l \<in> set links. inc \<or> same_domain w l start = Some True}))"
proof (intro conjI impI ballI)
  fix r
  assume "normalise w start_url = Some start \<and> crawl w start_url max_pages False = Some rs"
    and "r \<in> set rs"
  then show "url r = start \<or> same_domain w (url r) start = Some True"
    using crawl_results_scope by blast
next
  fix r
  assume a: "normalise w start_url = Some start \<and> crawl w start_url max_pages False = Some rs \<and>
    urlparse w start_url [] = Some p \<and>
    (legacy_urlunsplit w \<longrightarrow> netloc p \<noteq> [] \<or> take 2 (path p) \<noteq> ''//'')"
    and r: "r \<in> set rs"
  then have n: "normalise w start_url = Some start"
    and c: "crawl w start_url max_pages False = Some rs"
    and p: "urlparse w start_url [] = Some p"
    and g: "legacy_urlunsplit w \<longrightarrow> netloc p \<noteq> [] \<or> take 2 (path p) \<noteq> ''//''"
    by simp_all
  have st: "map_option netloc (urlparse w start []) = Some (netloc p)"
    using n p g by (rule normalise_reparse(2))
  from crawl_results_scope [OF n c r]
  show "map_option netloc (urlparse w (url r) []) = Some (netloc p)"
  proof
    assume "url r = start"
    with st show ?thesis by simp
  next
    assume "same_domain w (url r) start = Some True"
    then have "map_option netloc (urlparse w (url r) []) = map_option netloc (urlparse w start [])"
      by (rule same_domain_netloc)
    with st show ?thesis by simp
  qed
next
  assume a: "crawl_body w start inc s = Some s' \<and> same_domain w (hd (queue s)) start \<noteq> Some True"
  then have b: "crawl_body w start inc s = Some s'"
    and n: "\<not> in_scope w start (hd (queue s))"
    by (simp_all add: in_scope_def)
  from crawl_body_scope(2) [OF b n]
  show "queue s' = tl (queue s)" and "visited s' = visited s" by simp_all
  from crawl_body_step [OF b] show "\<exists>r. results s' = results s @ [r] \<and> url r = hd (queue s)"
    by force
next
  assume "crawl_body w start inc s = Some s' \<and>
    session_get w (length (results s)) (hd (queue s)) = Response code ct body final \<and>
    contains (case ct of None \<Rightarrow> [] | Some c \<Rightarrow> c) ''html'' \<and> body \<noteq> [] \<and>
    same_domain w (hd (queue s)) start = Some True"
  then show "\<exists>links. get_links w body (hd (queue s)) = Some links \<and>
         visited s' = visited s \<union> {l \<in> set links. inc \<or> same_domain w l start = Some True}"
    using crawl_body_expand by blast
qed

theorem C4_scope_witness:
  "(''http://site.test/d'' = ''http://site.test/'' \<or>
      same_domain bfs_site ''http://site.test/d'' ''http://site.test/'' = Some True) \<and>
   map_option netloc (urlparse bfs_site ''http://site.test/d'' []) = Some ''site.test'' \<and>
   legacy_urlunsplit legacy_site \<and>
   map_option netloc (urlparse legacy_site ''http://x'' []) = Some ''x'' \<and>
   same_domain mixed_site (hd (queue after_a)) ''http://site.test/'' = Some False \<and>
   crawl_body mixed_site ''http://site.test/'' True after_a =
     Some \<lparr>queue = [],
           visited = {''http://site.test/'', ''http://site.test/a'', ''http://other.test/x''},
           results =
             [\<lparr>url = ''http://site.test/'', status_code = 200, label = check_mark @ '' OK''\<rparr>,
              \<lparr>url = ''http://site.test/a'', status_code = 0, label = timeout_label\<rparr>,
              \<lparr>url = ''http://other.test/x'', status_code = 200, label = check_mark @ '' OK''\<rparr>]\<rparr> \<and>
   session_get redirect_site 0 ''http://site.test/'' =
     Response 200 (Some ''text/html'') ''<a href=/z>Z</a>'' ''http://other.test/landing'' \<and>
   (\<exists>links. get_links redirect_site ''<a href=/z>Z</a>'' ''http://site.test/'' = Some links \<and>
      {''http://site.test/'', ''http://site.test/z''} =
        {''http://site.test/''} \<union>
        {l \<in> set links. same_domain redirect_site l ''http://site.test/'' = Some True})"
proof -
  define p where "p = \<lparr>scheme = ''http'', netloc = ''site.test'', path = ''/'', params = '''',
    query = '''', fragment = ''top''\<rparr>"
  have n: "normalise bfs_site ''http://site.test/#top'' = Some ''http://site.test/''"
    by code_simp
  have pp: "urlparse bfs_site ''http://site.test/#top'' [] = Some p"
    unfolding p_def by code_simp
  have g: "legacy_urlunsplit bfs_site \<longrightarrow> netloc p \<noteq> [] \<or> take 2 (path p) \<noteq> ''//''"
    by (simp add: p_def)
  have m: "\<lparr>url = ''http://site.test/d'', status_code = 200, label = check_mark @ '' OK''\<rparr>
    \<in> set (the (crawl bfs_site ''http://site.test/#top'' 10 False))"
    by (simp add: bfs_site_crawl)
  from C4_scope [where w = bfs_site and start_url = "''http://site.test/#top''"
      and start = "''http://site.test/''" and max_pages = 10 and p = p
      and rs = "the (crawl bfs_site ''http://site.test/#top'' 10 False)"] n pp g m bfs_site_crawl
  have 1: "(''http://site.test/d'' = ''http://site.test/'' \<or>
      same_domain bfs_site ''http://site.test/d'' ''http://site.test/'' = Some True) \<and>
   map_option netloc (urlparse bfs_site ''http://site.test/d'' []) = Some ''site.test''"
    by (fastforce simp add: p_def)
  define px where "px = \<lparr>scheme = ''http'', netloc = ''x'', path = '''', params = '''',
    query = '''', fragment = ''''\<rparr>"
  have lg: "legacy_urlunsplit legacy_site"
    by (simp add: legacy_site_def)
  have nx: "normalise legacy_site ''http://x'' = Some ''http://x''"
    by code_simp
  have ppx: "urlparse legacy_site ''http://x'' [] = Some px"
    unfolding px_def by code_simp
  have gx: "legacy_urlunsplit legacy_site \<longrightarrow> netloc px \<noteq> [] \<or> take 2 (path px) \<noteq> ''//''"
    by (simp add: px_def)
  have cx: "crawl legacy_site ''http://x'' 10 False =
      Some [\<lparr>url = ''http://x'', status_code = 200, label = check_mark @ '' OK''\<rparr>]"
    by code_simp
  from C4_scope [where w = legacy_site and start_url = "''http://x''"
      and start = "''http://x''" and max_pages = 10 and p = px
      and rs = "[\<lparr>url = ''http://x'', status_code = 200, label = check_mark @ '' OK''\<rparr>]"]
    nx ppx gx cx
  have 2: "map_option netloc (urlparse legacy_site ''http://x'' []) = Some ''x''"
    by (simp add: px_def)
  have b: "crawl_body mixed_site ''http://site.test/'' True after_a =
     Some \<lparr>queue = [],
           visited = {''http://site.test/'', ''http://site.test/a'', ''http://other.test/x''},
           results =
             [\<lparr>url = ''http://site.test/'', status_code = 200, label = check_mark @ '' OK''\<rparr>,
              \<lparr>url = ''http://site.test/a'', status_code = 0, label = timeout_label\<rparr>,
              \<lparr>url = ''http://other.test/x'', status_code = 200, label = check_mark @ '' OK''\<rparr>]\<rparr>"
    by code_simp
  have e: "same_domain mixed_site (hd (queue after_a)) ''http://site.test/'' = Some False"
    by code_simp
  from C4_scope [where w = mixed_site and start = "''http://site.test/''" and inc = True
      and s = after_a and s' = "the (crawl_body mixed_site ''http://site.test/'' True after_a)"] b e
  have 3: "queue (the (crawl_body mixed_site ''http://site.test/'' True after_a)) = tl (queue after_a)"
    by simp
  have rb: "crawl_body redirect_site ''http://site.test/'' False (initial_state ''http://site.test/'') =
     Some \<lparr>queue = [''http://site.test/z''],
           visited = {''http://site.test/'', ''http://site.test/z''},
           results = [\<lparr>url = ''http://site.test/'', status_code = 200, label = check_mark @ '' OK''\<rparr>]\<rparr>"
    by code_simp
  have rg: "session_get redirect_site 0 ''http://site.test/'' =
     Response 200 (Some ''text/html'') ''<a href=/z>Z</a>'' ''http://other.test/landing''"
    by code_simp
  have rh: "contains ''text/html'' ''html''" by code_simp
  have rd: "same_domain redirect_site ''http://site.test/'' ''http://site.test/'' = Some True"
    by code_simp
  from C4_scope [where w = redirect_site and start = "''http://site.test/''" and inc = False
      and s = "initial_state ''http://site.test/''" and code = 200 and ct = "Some ''text/html''"
      and body = "''<a href=/z>Z</a>''" and final = "''http://other.test/landing''"
      and s' = "\<lparr>queue = [''http://site.test/z''],
           visited = {''http://site.test/'', ''http://site.test/z''},
           results = [\<lparr>url = ''http://site.test/'', status_code = 200, label = check_mark @ '' OK''\<rparr>]\<rparr>"]
    rb rg rh rd
  have 4: "\<exists>links. get_links redirect_site ''<a href=/z>Z</a>'' ''http://site.test/'' = Some links \<and>
      {''http://site.test/'', ''http://site.test/z''} =
        {''http://site.test/''} \<union>
        {l \<in> set links. same_domain redirect_site l ''http://site.test/'' = Some True}"
    by (simp add: initial_state_def)
  from 1 lg 2 e b rg 4 show ?thesis by blast
qed

section \<open>Comparison of network locations\<close>

lemma netloc_verbatim:
  assumes v: "valid_scheme sch" and df: "delim_free auth" and led: "delim_led rest"
    and safe: "is_safe auth"
  shows "map_option netloc (urlparse w (sch @ ''://'' @ auth @ rest) []) =
    (if netloc_ok w auth then Some auth else None)"
proof -
  let ?r = "''//'' @ auth @ rest"
  let ?x = "sch @ CHR '':'' # ?r"
  have x: "sch @ ''://'' @ auth @ rest = ?x" by simp
  have hs: "has_scheme ?x" using v by (rule has_scheme_intro)
  have c: "CHR '':'' \<notin> set sch" using v by (rule valid_scheme_colon)
  from v have sch: "sch \<noteq> []" "hd sch \<in> set scheme_chars" "set sch \<subseteq> set scheme_chars"
    using letters_scheme_chars by (auto simp add: valid_scheme_def)
  have d: "dropWhile C0_CONTROL_OR_SPACE ?x = ?x"
    using sch(1,2) scheme_char_plain(6) by (cases sch) auto
  have rapp: "remove_unsafe (p @ t) = remove_unsafe p @ remove_unsafe t" for p t
    by (simp add: remove_unsafe_def)
  have rid: "remove_unsafe p = p" if "is_safe p" for p
    using that by (auto simp add: remove_unsafe_def is_safe_def filter_id_conv)
  have "is_safe sch"
    using sch(3) scheme_char_plain(7) by (auto simp add: is_safe_def)
  with safe have sp: "is_safe (sch @ CHR '':'' # ''//'' @ auth)"
    by (simp add: UNSAFE_URL_BYTES_TO_REMOVE_def)
  define rest' where "rest' = remove_unsafe rest"
  have led': "delim_led rest'"
    using led unfolding rest'_def remove_unsafe_def
    by (cases rest)
      (auto simp add: delim_led_def netloc_delim_def UNSAFE_URL_BYTES_TO_REMOVE_def)
  have "remove_unsafe ((sch @ CHR '':'' # ''//'' @ auth) @ rest) =
      remove_unsafe (sch @ CHR '':'' # ''//'' @ auth) @ rest'"
    unfolding rest'_def by (rule rapp)
  also have "remove_unsafe (sch @ CHR '':'' # ''//'' @ auth) = sch @ CHR '':'' # ''//'' @ auth"
    using sp by (rule rid)
  finally have "remove_unsafe ?x = (sch @ CHR '':'' # ''//'' @ auth) @ rest'"
    by simp
  then have cl: "cleanurl ?x = sch @ CHR '':'' # (''//'' @ auth @ rest')"
    unfolding cleanurl_def d by simp
  have hs': "has_scheme (sch @ CHR '':'' # (''//'' @ auth @ rest'))"
    using v by (rule has_scheme_intro)
  have 1: "split_scheme (sch @ CHR '':'' # (''//'' @ auth @ rest')) =
      (lower sch, ''//'' @ auth @ rest')"
    using hs' c by (simp add: split_scheme_def del: append.simps)
  have 2: "split_netloc (''//'' @ auth @ rest') = (auth, rest')"
    using df led' by (rule split_netloc_build)
  have "fst (snd (split_clean (cleanurl ?x))) = auth"
    unfolding cl split_clean_def 1 prod.case 2 Let_def by simp
  then show ?thesis
    unfolding x by (simp add: urlparse_netloc)
qed

lemma valid_scheme_http: "valid_scheme ''http''"
  by (simp add: valid_scheme_def ascii_lowercase_def scheme_chars_def)

text \<open>
  C10: \<open>same_domain\<close> holds exactly when both URLs parse and their \<open>netloc\<close> strings are
  equal as strings. For a URL of the form scheme, \<open>://\<close>, authority, rest, \<open>urlparse\<close> returns
  the authority as it is written, with its letter case, port and user information. So two
  such URLs are in the same domain exactly when their authorities are the same string:
  hosts that differ in case, an explicit default port or user information make two URLs of
  the same host different for \<open>same_domain\<close>, in whatever order they are given.
\<close>

theorem C10_exact_netloc:
  "(same_domain w a b = Some True \<longleftrightarrow>
      (\<exists>pa pb. urlparse w a [] = Some pa \<and> urlparse w b [] = Some pb \<and> netloc pa = netloc pb)) \<and>
   (valid_scheme s1 \<and> valid_scheme s2 \<and> delim_free a1 \<and> delim_free a2 \<and>
    is_safe a1 \<and> is_safe a2 \<and> delim_led r1 \<and> delim_led r2 \<and>
    netloc_ok w a1 \<and> netloc_ok w a2 \<longrightarrow>
      same_domain w (s1 @ ''://'' @ a1 @ r1) (s2 @ ''://'' @ a2 @ r2) = Some (a1 = a2)) \<and>
   map_option netloc (urlparse w ''http://Example.com/'' []) = Some ''Example.com'' \<and>
   map_option netloc (urlparse w ''http://example.com/'' []) = Some ''example.com'' \<and>
   same_domain w ''http://Example.com/'' ''http://example.com/'' = Some False \<and>
   same_domain w ''http://example.com/'' ''http://Example.com/'' = Some False \<and>
   same_domain w ''http://example.com:80/'' ''http://example.com/'' = Some False \<and>
   same_domain w ''http://user@example.com/'' ''http://example.com/'' = Some False \<and>
   same_domain w ''http://example.com/a#x'' ''http://example.com/b?q'' = Some True"
proof (intro conjI impI)
  show "same_domain w a b = Some True \<longleftrightarrow>
      (\<exists>pa pb. urlparse w a [] = Some pa \<and> urlparse w b [] = Some pb \<and> netloc pa = netloc pb)"
    by (auto simp add: same_domain_def split: option.splits)
next
  assume a: "valid_scheme s1 \<and> valid_scheme s2 \<and> delim_free a1 \<and> delim_free a2 \<and>
    is_safe a1 \<and> is_safe a2 \<and> delim_led r1 \<and> delim_led r2 \<and>
    netloc_ok w a1 \<and> netloc_ok w a2"
  have "map_option netloc (urlparse w (s1 @ ''://'' @ a1 @ r1) []) =
      (if netloc_ok w a1 then Some a1 else None)"
    using a by (intro netloc_verbatim) simp_all
  moreover have "map_option netloc (urlparse w (s2 @ ''://'' @ a2 @ r2) []) =
      (if netloc_ok w a2 then Some a2 else None)"
    using a by (intro netloc_verbatim) simp_all
  ultimately have "map_option netloc (urlparse w (s1 @ ''://'' @ a1 @ r1) []) = Some a1"
    and "map_option netloc (urlparse w (s2 @ ''://'' @ a2 @ r2) []) = Some a2"
    using a by simp_all
  then show "same_domain w (s1 @ ''://'' @ a1 @ r1) (s2 @ ''://'' @ a2 @ r2) = Some (a1 = a2)"
    by (auto simp add: same_domain_def split: option.splits)
qed (simp_all add: same_domain_def urlparse_def urlsplit_def Let_def has_scheme_def
      before_def after_def remove_unsafe_def UNSAFE_URL_BYTES_TO_REMOVE_def
      C0_CONTROL_OR_SPACE_def scheme_chars_def ascii_lowercase_def ascii_uppercase_def
      lower_def lower_char_def splitnetloc_def netloc_delim_def checknetloc_def isascii_def
      strip_chars_def uses_params_def)

theorem C10_exact_netloc_witness:
  "valid_scheme ''http'' \<and> delim_free ''Example.com:80'' \<and> delim_led ''/index.html'' \<and>
   netloc_ok mixed_site ''Example.com:80'' \<and>
   same_domain mixed_site ''http://Example.com:80/index.html'' ''http://example.com/'' =
     Some False"
proof -
  have h: "valid_scheme ''http''" by (rule valid_scheme_http)
  have d: "delim_free ''Example.com:80''" "delim_free ''example.com''"
    by (simp_all add: delim_free_def netloc_delim_def)
  have s: "is_safe ''Example.com:80''" "is_safe ''example.com''"
    by (simp_all add: UNSAFE_URL_BYTES_TO_REMOVE_def)
  have l: "delim_led ''/index.html''" "delim_led ''/''"
    by (simp_all add: delim_led_def netloc_delim_def)
  have n: "netloc_ok mixed_site ''Example.com:80''" "netloc_ok mixed_site ''example.com''"
    by (simp_all add: netloc_ok_def checknetloc_def isascii_def)
  from C10_exact_netloc [where w = mixed_site and ?s1.0 = "''http''" and ?s2.0 = "''http''"
      and ?a1.0 = "''Example.com:80''" and ?a2.0 = "''example.com''"
      and ?r1.0 = "''/index.html''" and ?r2.0 = "''/''"] h d s l n
  show ?thesis by simp
qed

end
